theory Spec2Isabelle
  imports Complex_Main "HOL-Library.Word" "HOL-Library.Multiset"
begin

section \<open>Errors\<close>

text \<open>
  The Python exceptions that the modelled code can raise: \<open>IndexError\<close> (\<open>frames[0]\<close> on
  an empty list), \<open>ValueError\<close> (numpy: \<open>argmin\<close> of an empty array, a \<open>reshape\<close> that
  does not fit) and \<open>CvError\<close> (\<open>cv2.error\<close>, an OpenCV assertion on the shape of a buffer).
\<close>

datatype error = IndexError | ValueError | CvError

section \<open>Points and point ordering (document_processor.py, order_points)\<close>

text \<open>
  A contour vertex is a pair of integer pixel coordinates (OpenCV contours are int32 arrays;
  x grows to the right, y grows downwards). \<open>order_points\<close> copies the chosen rows into a
  float32 array; that conversion is exact for coordinates below \<open>2 ^ 24\<close>, so the model keeps
  the integer values.
\<close>

type_synonym point = "int \<times> int"

text \<open>\<open>pts.sum(axis=1)\<close>: one value x + y per row.\<close>

definition np_sum_axis1 :: "point list \<Rightarrow> int list" where
  "np_sum_axis1 pts = map (\<lambda>(x, y). x + y) pts"

text \<open>
  \<open>np.diff(pts, axis=1)\<close>: the difference of consecutive columns, \<open>out[i] = a[i+1] - a[i]\<close>;
  for the two columns (x, y) this is the single value y - x per row.
\<close>

definition np_diff_axis1 :: "point list \<Rightarrow> int list" where
  "np_diff_axis1 pts = map (\<lambda>(x, y). y - x) pts"

text \<open>
  \<open>np.argmin\<close> and \<open>np.argmax\<close> scan the array once and keep the index of the best value
  seen so far; a later value replaces it only when it is strictly better, so the first
  occurrence wins. On an empty array numpy raises \<open>ValueError\<close>.
\<close>

fun arg_scan :: "('a \<Rightarrow> 'a \<Rightarrow> bool) \<Rightarrow> 'a list \<Rightarrow> nat \<Rightarrow> nat \<Rightarrow> 'a \<Rightarrow> nat" where
  "arg_scan better [] i bi bv = bi"
| "arg_scan better (x # xs) i bi bv =
     (if better x bv then arg_scan better xs (Suc i) i x
      else arg_scan better xs (Suc i) bi bv)"

definition np_argmin :: "('a::linorder) list \<Rightarrow> error + nat" where
  "np_argmin xs = (case xs of [] \<Rightarrow> Inl ValueError | x # r \<Rightarrow> Inr (arg_scan (<) r 1 0 x))"

definition np_argmax :: "('a::linorder) list \<Rightarrow> error + nat" where
  "np_argmax xs = (case xs of [] \<Rightarrow> Inl ValueError | x # r \<Rightarrow> Inr (arg_scan (>) r 1 0 x))"

text \<open>
  \<open>order_points\<close>: slot 0 (top-left) is the row at \<open>argmin\<close> of the sums, slot 2 (bottom-right)
  the row at \<open>argmax\<close> of the sums, slot 1 (top-right) the row at \<open>argmin\<close> of the differences
  and slot 3 (bottom-left) the row at \<open>argmax\<close> of the differences.
\<close>

definition order_points :: "point list \<Rightarrow> error + point list" where
  "order_points pts =
     (let s = np_sum_axis1 pts in
      case np_argmin s of Inl e \<Rightarrow> Inl e | Inr i0 \<Rightarrow>
      case np_argmax s of Inl e \<Rightarrow> Inl e | Inr i2 \<Rightarrow>
      let diff = np_diff_axis1 pts in
      case np_argmin diff of Inl e \<Rightarrow> Inl e | Inr i1 \<Rightarrow>
      case np_argmax diff of Inl e \<Rightarrow> Inl e | Inr i3 \<Rightarrow>
      Inr [pts ! i0, pts ! i1, pts ! i2, pts ! i3])"

text \<open>
  Vocabulary for the specification of the ordering: \<open>first_least key pts p\<close> says that \<open>p\<close> is
  the first point of \<open>pts\<close>, in input order, at which \<open>key\<close> is minimal; \<open>first_greatest\<close> is
  the same for the maximum.
\<close>

definition first_least :: "(point \<Rightarrow> int) \<Rightarrow> point list \<Rightarrow> point \<Rightarrow> bool" where
  "first_least key pts p =
     (\<exists>i < length pts. p = pts ! i \<and> (\<forall>j < length pts. key (pts ! i) \<le> key (pts ! j))
        \<and> (\<forall>j < i. key (pts ! i) < key (pts ! j)))"

definition first_greatest :: "(point \<Rightarrow> int) \<Rightarrow> point list \<Rightarrow> point \<Rightarrow> bool" where
  "first_greatest key pts p =
     (\<exists>i < length pts. p = pts ! i \<and> (\<forall>j < length pts. key (pts ! j) \<le> key (pts ! i))
        \<and> (\<forall>j < i. key (pts ! j) < key (pts ! i)))"

definition key_sum :: "point \<Rightarrow> int" where
  "key_sum p = fst p + snd p"

text \<open>The key x - y of the specification.\<close>

definition key_diff :: "point \<Rightarrow> int" where
  "key_diff p = fst p - snd p"

text \<open>
  A point list has uniquely extremal keys when each of the four extremes (least and
  greatest x + y, least and greatest x - y) is attained by one point only.
\<close>

definition unique_least :: "(point \<Rightarrow> int) \<Rightarrow> point list \<Rightarrow> bool" where
  "unique_least key pts =
     (\<forall>p \<in> set pts. \<forall>q \<in> set pts.
        (\<forall>r \<in> set pts. key p \<le> key r) \<and> (\<forall>r \<in> set pts. key q \<le> key r) \<longrightarrow> p = q)"

definition unique_greatest :: "(point \<Rightarrow> int) \<Rightarrow> point list \<Rightarrow> bool" where
  "unique_greatest key pts =
     (\<forall>p \<in> set pts. \<forall>q \<in> set pts.
        (\<forall>r \<in> set pts. key r \<le> key p) \<and> (\<forall>r \<in> set pts. key r \<le> key q) \<longrightarrow> p = q)"

definition uniquely_extremal :: "point list \<Rightarrow> bool" where
  "uniquely_extremal pts =
     (unique_least key_sum pts \<and> unique_greatest key_sum pts
      \<and> unique_least key_diff pts \<and> unique_greatest key_diff pts)"

section \<open>Floating-point rounding\<close>

text \<open>
  numpy computes on float32 and float64 values. A finite binary floating-point number with
  \<open>p\<close> significant bits is an integer of magnitude below \<open>2 ^ p\<close> times a power of two, and
  every arithmetic operation returns the representable number nearest to the exact result,
  the one with the even significand on a tie. \<open>fround p x\<close> is that number: \<open>x\<close> is scaled
  by the power of two that puts it between \<open>2 ^ (p - 1)\<close> and \<open>2 ^ p\<close>, rounded to an integer
  and scaled back. The exponent range is not modelled (no overflow, no subnormal numbers);
  pixel coordinates, squared distances and grey values are far inside it.
\<close>

definition pow2 :: "int \<Rightarrow> real" where
  "pow2 k = (if 0 \<le> k then 2 ^ nat k else 1 / 2 ^ nat (- k))"

text \<open>Rounding to the nearest integer, to the even one on a tie.\<close>

definition round_even :: "real \<Rightarrow> int" where
  "round_even x =
     (let f = \<lfloor>x\<rfloor>; r = x - of_int f
      in if r < 1 / 2 then f else if 1 / 2 < r then f + 1 else if even f then f else f + 1)"

definition fround :: "nat \<Rightarrow> real \<Rightarrow> real" where
  "fround p x =
     (if x = 0 then 0
      else let e = \<lfloor>log 2 \<bar>x\<bar>\<rfloor> - (int p - 1)
           in of_int (round_even (x / pow2 e)) * pow2 e)"

text \<open>float32 has 24 significant bits, float64 has 53.\<close>

definition f32 :: "real \<Rightarrow> real" where
  "f32 = fround 24"

definition f64 :: "real \<Rightarrow> real" where
  "f64 = fround 53"

section \<open>Pixel buffers\<close>

text \<open>
  A numpy buffer of dtype uint8 is its shape together with its contents. A two-dimensional
  buffer (\<open>len(image.shape) == 2\<close>) is \<open>Gray rows cols f\<close>, a three-dimensional one
  \<open>Color rows cols channels f\<close>; \<open>f y x\<close> (or \<open>f y x c\<close>) is the value at row \<open>y\<close>,
  column \<open>x\<close> (and channel \<open>c\<close>). Only the values inside the shape are part of the buffer.
\<close>

datatype image =
    Gray nat nat "nat \<Rightarrow> nat \<Rightarrow> 8 word"
  | Color nat nat nat "nat \<Rightarrow> nat \<Rightarrow> nat \<Rightarrow> 8 word"

fun height :: "image \<Rightarrow> nat" where
  "height (Gray h w f) = h"
| "height (Color h w c f) = h"

fun width :: "image \<Rightarrow> nat" where
  "width (Gray h w f) = w"
| "width (Color h w c f) = w"

text \<open>\<open>len(image.shape) == 3\<close>\<close>

fun ndim3 :: "image \<Rightarrow> bool" where
  "ndim3 (Gray h w f) = False"
| "ndim3 (Color h w c f) = True"

text \<open>The number of channels as OpenCV counts them (a two-dimensional buffer has one).\<close>

fun channels :: "image \<Rightarrow> nat" where
  "channels (Gray h w f) = 1"
| "channels (Color h w c f) = c"

fun pixel :: "image \<Rightarrow> nat \<Rightarrow> nat \<Rightarrow> nat \<Rightarrow> 8 word" where
  "pixel (Gray h w f) y x c = f y x"
| "pixel (Color h w n f) y x c = f y x c"

text \<open>
  A well-formed colour input of the pipeline: a non-empty buffer with three (BGR) or four
  (BGRA) channels, as \<open>cv2.imread\<close> and the camera deliver them.
\<close>

definition valid_bgr :: "image \<Rightarrow> bool" where
  "valid_bgr img = (ndim3 img \<and> 0 < height img \<and> 0 < width img
     \<and> (channels img = 3 \<or> channels img = 4))"

text \<open>Every value inside the shape is 0 or 255.\<close>

definition binary_valued :: "image \<Rightarrow> bool" where
  "binary_valued img =
     (\<forall>y < height img. \<forall>x < width img. \<forall>c < channels img.
        pixel img y x c = 0 \<or> pixel img y x c = 255)"

text \<open>A three-channel buffer whose channels agree at every pixel.\<close>

definition equal_channels3 :: "image \<Rightarrow> bool" where
  "equal_channels3 img =
     (ndim3 img \<and> channels img = 3
      \<and> (\<forall>y < height img. \<forall>x < width img.
            pixel img y x 1 = pixel img y x 0 \<and> pixel img y x 2 = pixel img y x 0))"

section \<open>The OpenCV functions the code calls\<close>

type_synonym contour = "point list"

text \<open>
  OpenCV is not part of the repository. The functions whose numeric content no claim
  depends on are parameters of the model, collected in one record; each field is the
  library function of the same name, applied to the arguments the source passes:
  \<^item> \<open>bgr2gray_px b g r\<close>: the luminance that \<open>cvtColor(COLOR_BGR2GRAY)\<close> gives a pixel;
  \<^item> \<open>GaussianBlur img ksize sigma\<close>, \<open>Canny img low high\<close>, \<open>dilate img ksize iterations\<close>
    (with the rectangular structuring element of that size);
  \<^item> \<open>findContours img\<close> with \<open>RETR_EXTERNAL\<close> and \<open>CHAIN_APPROX_SIMPLE\<close>, after
    \<open>imutils.grab_contours\<close>;
  \<^item> \<open>contourArea\<close>, \<open>arcLength cnt closed\<close>, \<open>approxPolyDP cnt epsilon closed\<close>;
  \<^item> \<open>getPerspectiveTransform src dst\<close> and \<open>warpPerspective img M dsize\<close>;
  \<^item> \<open>gaussian_mean img blockSize y x\<close>: the Gaussian-weighted mean of the
    \<open>blockSize\<close> neighbourhood of a pixel, as \<open>adaptiveThreshold\<close> computes it (8 bit);
  \<^item> \<open>Laplacian img y x\<close>: the response of \<open>cv2.Laplacian(img, CV_64F)\<close> at a pixel;
  \<^item> \<open>bilateralFilter img d sigmaColor sigmaSpace\<close>, \<open>filter2D img kernel\<close> (depth -1),
    \<open>bgr2lab_px\<close> and \<open>lab2bgr_px\<close> (the colour conversions of one pixel) and
    \<open>clahe_apply clipLimit tileGridSize img\<close>.
  A floating-point result of the library is the real number it denotes.

  numpy is not part of the repository either. Its reduction \<open>sum\<close> adds the entries of a
  float64 array two at a time, each addition rounded, in an order that depends on the
  number of entries (pairwise summation); that order is the parameter \<open>sum_order\<close>: for
  each number of entries an expression built from entries (by position) and additions.
\<close>

datatype sum_shape = Entry nat | Add sum_shape sum_shape

record cv2 =
  bgr2gray_px :: "8 word \<Rightarrow> 8 word \<Rightarrow> 8 word \<Rightarrow> 8 word"
  GaussianBlur :: "image \<Rightarrow> nat \<times> nat \<Rightarrow> real \<Rightarrow> image"
  Canny :: "image \<Rightarrow> real \<Rightarrow> real \<Rightarrow> image"
  dilate :: "image \<Rightarrow> nat \<times> nat \<Rightarrow> nat \<Rightarrow> image"
  findContours :: "image \<Rightarrow> contour list"
  contourArea :: "contour \<Rightarrow> real"
  arcLength :: "contour \<Rightarrow> bool \<Rightarrow> real"
  approxPolyDP :: "contour \<Rightarrow> real \<Rightarrow> bool \<Rightarrow> contour"
  getPerspectiveTransform :: "(real \<times> real) list \<Rightarrow> (real \<times> real) list \<Rightarrow> real list list"
  warpPerspective :: "image \<Rightarrow> real list list \<Rightarrow> int \<times> int \<Rightarrow> image"
  gaussian_mean :: "image \<Rightarrow> nat \<Rightarrow> nat \<Rightarrow> nat \<Rightarrow> 8 word"
  Laplacian :: "image \<Rightarrow> nat \<Rightarrow> nat \<Rightarrow> real"
  bilateralFilter :: "image \<Rightarrow> nat \<Rightarrow> real \<Rightarrow> real \<Rightarrow> image"
  filter2D :: "image \<Rightarrow> int list list \<Rightarrow> image"
  bgr2lab_px :: "8 word \<times> 8 word \<times> 8 word \<Rightarrow> 8 word \<times> 8 word \<times> 8 word"
  lab2bgr_px :: "8 word \<times> 8 word \<times> 8 word \<Rightarrow> 8 word \<times> 8 word \<times> 8 word"
  clahe_apply :: "real \<Rightarrow> nat \<times> nat \<Rightarrow> image \<Rightarrow> image"
  sum_order :: "nat \<Rightarrow> sum_shape"

text \<open>
  The functions whose shape checks and value sets the claims do depend on are written out.
  \<open>cvtColor(img, COLOR_BGR2GRAY)\<close> accepts a non-empty buffer with three or four channels
  and raises \<open>cv2.error\<close> otherwise; the result is two-dimensional, of the same height and
  width.
\<close>

definition cvtColor_BGR2GRAY :: "cv2 \<Rightarrow> image \<Rightarrow> error + image" where
  "cvtColor_BGR2GRAY cv img =
     (case img of
        Gray h w f \<Rightarrow> Inl CvError
      | Color h w c f \<Rightarrow>
          if h = 0 \<or> w = 0 \<or> (c \<noteq> 3 \<and> c \<noteq> 4) then Inl CvError
          else Inr (Gray h w (\<lambda>y x. bgr2gray_px cv (f y x 0) (f y x 1) (f y x 2))))"

text \<open>
  \<open>cvtColor(img, COLOR_GRAY2BGR)\<close> accepts a non-empty one-channel buffer and copies the
  value into three channels.
\<close>

definition cvtColor_GRAY2BGR :: "image \<Rightarrow> error + image" where
  "cvtColor_GRAY2BGR img =
     (if height img = 0 \<or> width img = 0 \<or> channels img \<noteq> 1 then Inl CvError
      else Inr (Color (height img) (width img) 3 (\<lambda>y x c. pixel img y x 0)))"

text \<open>
  \<open>adaptiveThreshold(src, maxValue, ADAPTIVE_THRESH_GAUSSIAN_C, THRESH_BINARY, blockSize, C)\<close>
  accepts a one-channel 8-bit buffer and an odd block size above 1. A pixel becomes
  \<open>maxValue\<close> when it exceeds the local mean minus \<open>C\<close>, and 0 otherwise.
\<close>

definition adaptiveThreshold :: "cv2 \<Rightarrow> image \<Rightarrow> 8 word \<Rightarrow> nat \<Rightarrow> int \<Rightarrow> error + image" where
  "adaptiveThreshold cv src maxValue blockSize C =
     (if height src = 0 \<or> width src = 0 \<or> channels src \<noteq> 1 \<or> even blockSize \<or> blockSize \<le> 1
      then Inl CvError
      else Inr (Gray (height src) (width src)
        (\<lambda>y x. if uint (pixel src y x 0) - uint (gaussian_mean cv src blockSize y x) > - C
               then maxValue else 0)))"

text \<open>
  \<open>medianBlur(src, 3)\<close>: every value is replaced by the median of the nine values of its
  3x3 neighbourhood, channel by channel; at the border the nearest row or column is
  repeated (\<open>BORDER_REPLICATE\<close>). \<open>clamp_index n i\<close> is the index in \<open>0..n-1\<close> nearest to \<open>i\<close>.
  The aperture 3 is the only one the source passes; an empty buffer is refused.
\<close>

definition clamp_index :: "nat \<Rightarrow> int \<Rightarrow> nat" where
  "clamp_index n i = nat (max 0 (min (int n - 1) i))"

definition window3 :: "nat \<Rightarrow> nat \<Rightarrow> (nat \<Rightarrow> nat \<Rightarrow> 8 word) \<Rightarrow> nat \<Rightarrow> nat \<Rightarrow> 8 word list" where
  "window3 h w f y x =
     [f (clamp_index h (int y + dy)) (clamp_index w (int x + dx)). dy \<leftarrow> [-1, 0, 1], dx \<leftarrow> [-1, 0, 1]]"

definition median9 :: "8 word list \<Rightarrow> 8 word" where
  "median9 vs = sort vs ! 4"

definition medianBlur3 :: "image \<Rightarrow> error + image" where
  "medianBlur3 src =
     (if height src = 0 \<or> width src = 0 then Inl CvError
      else Inr (case src of
          Gray h w f \<Rightarrow> Gray h w (\<lambda>y x. median9 (window3 h w f y x))
        | Color h w c f \<Rightarrow> Color h w c (\<lambda>y x k. median9 (window3 h w (\<lambda>y x. f y x k) y x))))"

text \<open>
  \<open>cvtColor\<close> with \<open>COLOR_BGR2LAB\<close> accepts a non-empty buffer with three or four channels
  (a fourth channel is ignored), with \<open>COLOR_LAB2BGR\<close> a non-empty buffer with three
  channels; both convert pixel by pixel and return three channels.
\<close>

definition convert_pixels ::
  "(8 word \<times> 8 word \<times> 8 word \<Rightarrow> 8 word \<times> 8 word \<times> 8 word) \<Rightarrow> image \<Rightarrow> image" where
  "convert_pixels conv img =
     Color (height img) (width img) 3 (\<lambda>y x k.
       let (p, q, r) = conv (pixel img y x 0, pixel img y x 1, pixel img y x 2)
       in if k = 0 then p else if k = 1 then q else r)"

definition cvtColor_BGR2LAB :: "cv2 \<Rightarrow> image \<Rightarrow> error + image" where
  "cvtColor_BGR2LAB cv img =
     (if \<not> ndim3 img \<or> height img = 0 \<or> width img = 0
         \<or> (channels img \<noteq> 3 \<and> channels img \<noteq> 4)
      then Inl CvError else Inr (convert_pixels (bgr2lab_px cv) img))"

definition cvtColor_LAB2BGR :: "cv2 \<Rightarrow> image \<Rightarrow> error + image" where
  "cvtColor_LAB2BGR cv img =
     (if \<not> ndim3 img \<or> height img = 0 \<or> width img = 0 \<or> channels img \<noteq> 3
      then Inl CvError else Inr (convert_pixels (lab2bgr_px cv) img))"

text \<open>
  \<open>bilateralFilter\<close> accepts a non-empty 8-bit buffer with one or three channels and raises
  \<open>cv2.error\<close> otherwise.
\<close>

definition bilateralFilter_checked ::
  "cv2 \<Rightarrow> image \<Rightarrow> nat \<Rightarrow> real \<Rightarrow> real \<Rightarrow> error + image" where
  "bilateralFilter_checked cv src d sigmaColor sigmaSpace =
     (if height src = 0 \<or> width src = 0 \<or> (channels src \<noteq> 1 \<and> channels src \<noteq> 3)
      then Inl CvError else Inr (bilateralFilter cv src d sigmaColor sigmaSpace))"

text \<open>\<open>cv2.split\<close> of a three-channel buffer and \<open>cv2.merge\<close> of three planes of one size.\<close>

definition split_plane :: "image \<Rightarrow> nat \<Rightarrow> image" where
  "split_plane img k = Gray (height img) (width img) (\<lambda>y x. pixel img y x k)"

definition merge3 :: "image \<Rightarrow> image \<Rightarrow> image \<Rightarrow> error + image" where
  "merge3 p q r =
     (if ndim3 p \<or> ndim3 q \<or> ndim3 r \<or> height q \<noteq> height p \<or> height r \<noteq> height p
         \<or> width q \<noteq> width p \<or> width r \<noteq> width p
      then Inl CvError
      else Inr (Color (height p) (width p) 3
        (\<lambda>y x k. if k = 0 then pixel p y x 0 else if k = 1 then pixel q y x 0 else pixel r y x 0)))"

section \<open>The document pipeline (document_processor.py)\<close>

text \<open>
  \<open>preprocess_image\<close>: grayscale, 5x5 Gaussian blur, Canny with thresholds 50 and 150,
  one dilation with a 3x3 rectangle.
\<close>

definition preprocess_image :: "cv2 \<Rightarrow> image \<Rightarrow> error + image" where
  "preprocess_image cv img =
     (case cvtColor_BGR2GRAY cv img of Inl e \<Rightarrow> Inl e | Inr gray \<Rightarrow>
      let blurred = GaussianBlur cv gray (5, 5) 0;
          edges = Canny cv blurred 50 150;
          dilated = dilate cv edges (3, 3) 1
      in Inr dilated)"

text \<open>
  \<open>sorted(cnts, key=..., reverse=True)\<close>: CPython reverses the list, sorts it stably in
  ascending order and reverses the result, so that equal keys keep their input order.
\<close>

definition py_sorted_reverse :: "('a \<Rightarrow> real) \<Rightarrow> 'a list \<Rightarrow> 'a list" where
  "py_sorted_reverse key xs = rev (sort_key key (rev xs))"

text \<open>
  The loop of \<open>detect_document_contour\<close> over \<open>cnts[:5]\<close>: approximate the contour with
  tolerance \<open>0.02 * arcLength\<close> and return the first approximation with four vertices.
\<close>

fun quad_search :: "cv2 \<Rightarrow> contour list \<Rightarrow> contour option" where
  "quad_search cv [] = None"
| "quad_search cv (cnt # rest) =
     (let epsilon = 0.02 * arcLength cv cnt True;
          approx = approxPolyDP cv cnt epsilon True
      in if length approx = 4 then Some approx else quad_search cv rest)"

definition detect_document_contour :: "cv2 \<Rightarrow> image \<Rightarrow> contour option" where
  "detect_document_contour cv processed_image =
     (let cnts = findContours cv processed_image in
      if cnts = [] then None
      else quad_search cv (take 5 (py_sorted_reverse (contourArea cv) cnts)))"

text \<open>Python's \<open>int(x)\<close> on a float: truncation towards zero.\<close>

definition py_int :: "real \<Rightarrow> int" where
  "py_int x = (if 0 \<le> x then \<lfloor>x\<rfloor> else \<lceil>x\<rceil>)"

definition to_real :: "point \<Rightarrow> real \<times> real" where
  "to_real p = (real_of_int (fst p), real_of_int (snd p))"

text \<open>
  The corners are stored in a float32 array (\<open>rect\<close>), and the expression
  \<open>np.sqrt(((a[0] - b[0]) ** 2) + ((a[1] - b[1]) ** 2))\<close> is evaluated on float32 values:
  each difference, each square, the sum and the square root is rounded to float32.
\<close>

definition f32_point :: "point \<Rightarrow> real \<times> real" where
  "f32_point p = (f32 (real_of_int (fst p)), f32 (real_of_int (snd p)))"

definition np_dist_f32 :: "real \<times> real \<Rightarrow> real \<times> real \<Rightarrow> real" where
  "np_dist_f32 a b =
     f32 (sqrt (f32 (f32 ((f32 (fst a - fst b))\<^sup>2) + f32 ((f32 (snd a - snd b))\<^sup>2))))"

text \<open>
  \<open>correct_perspective\<close>, up to the library calls: \<open>reshape(4, 2)\<close> (a \<open>ValueError\<close> unless
  the contour has four points), \<open>order_points\<close>, the two widths and the two heights, the
  output size and the destination corners. The result is the ordered rectangle, the
  destination corners and \<open>(maxWidth, maxHeight)\<close>.
\<close>

definition perspective_plan :: "contour \<Rightarrow> error + (point list \<times> (int \<times> int) list \<times> (int \<times> int))" where
  "perspective_plan contour =
     (if length contour \<noteq> 4 then Inl ValueError else
      case order_points contour of Inl e \<Rightarrow> Inl e | Inr rect \<Rightarrow>
      (case rect of
         [ptl, ptr, pbr, pbl] \<Rightarrow>
           let widthA = np_dist_f32 (f32_point pbr) (f32_point pbl);
               widthB = np_dist_f32 (f32_point ptr) (f32_point ptl);
               maxWidth = max (py_int widthA) (py_int widthB);
               heightA = np_dist_f32 (f32_point ptr) (f32_point pbr);
               heightB = np_dist_f32 (f32_point ptl) (f32_point pbl);
               maxHeight = max (py_int heightA) (py_int heightB);
               dst = [(0, 0), (maxWidth - 1, 0), (maxWidth - 1, maxHeight - 1), (0, maxHeight - 1)]
           in Inr (rect, dst, (maxWidth, maxHeight))
       | _ \<Rightarrow> Inl ValueError))"

text \<open>
  For the specification of the output size: the exact Euclidean distance of two points,
  the square of the length of an edge, and the bound on the coordinates under which the
  conversion of a corner to float32 is exact.
\<close>

definition euclid :: "point \<Rightarrow> point \<Rightarrow> real" where
  "euclid p q = sqrt ((real_of_int (fst p) - real_of_int (fst q))\<^sup>2
                    + (real_of_int (snd p) - real_of_int (snd q))\<^sup>2)"

definition edge_sq :: "point \<Rightarrow> point \<Rightarrow> int" where
  "edge_sq p q = (fst p - fst q)\<^sup>2 + (snd p - snd q)\<^sup>2"

definition small_coords :: "point \<Rightarrow> bool" where
  "small_coords p = (\<bar>fst p\<bar> \<le> 2 ^ 24 \<and> \<bar>snd p\<bar> \<le> 2 ^ 24)"

text \<open>
  The rest of \<open>correct_perspective\<close>: the homography from the float32 rectangle to the
  float32 destination corners, and the warp of the buffer to the planned size.
\<close>

definition correct_perspective :: "cv2 \<Rightarrow> image \<Rightarrow> contour \<Rightarrow> error + image" where
  "correct_perspective cv img contour =
     (case perspective_plan contour of Inl e \<Rightarrow> Inl e | Inr (rect, dst, dsize) \<Rightarrow>
      let M = getPerspectiveTransform cv (map f32_point rect) (map f32_point dst);
          warped = warpPerspective cv img M dsize
      in Inr warped)"

text \<open>
  \<open>enhance_image\<close>: grayscale when the buffer is three-dimensional, Gaussian adaptive
  threshold (maximum 255, block size 11, constant 2), 3x3 median blur, and back to three
  channels when the input was three-dimensional.
\<close>

definition enhance_image :: "cv2 \<Rightarrow> image \<Rightarrow> error + image" where
  "enhance_image cv img =
     (case (if ndim3 img then cvtColor_BGR2GRAY cv img else Inr img) of
        Inl e \<Rightarrow> Inl e | Inr gray \<Rightarrow>
      case adaptiveThreshold cv gray 255 11 2 of Inl e \<Rightarrow> Inl e | Inr adaptive_thresh \<Rightarrow>
      case medianBlur3 adaptive_thresh of Inl e \<Rightarrow> Inl e | Inr denoised \<Rightarrow>
      if ndim3 img then cvtColor_GRAY2BGR denoised else Inr denoised)"

text \<open>
  The result of the enhancement on a colour buffer, pixel by pixel, for the specification
  of the pipeline: the luminance of each pixel is compared with its local mean less 2, and
  each pixel of the output carries, in all three channels, the median of the nine
  comparison results around it.
\<close>

definition binarize_bgr :: "cv2 \<Rightarrow> image \<Rightarrow> image" where
  "binarize_bgr cv img =
     (let h = height img; w = width img;
          lum = (\<lambda>y x. bgr2gray_px cv (pixel img y x 0) (pixel img y x 1) (pixel img y x 2));
          thr = (\<lambda>y x. if uint (lum y x) - uint (gaussian_mean cv (Gray h w lum) 11 y x) > - 2
                       then 255 else 0)
      in Color h w 3 (\<lambda>y x c. median9 (window3 h w thr y x)))"

text \<open>
  \<open>process_document\<close>: any exception is caught and the result is \<open>None\<close>.
\<close>

definition process_document :: "cv2 \<Rightarrow> image \<Rightarrow> image option" where
  "process_document cv img =
     (case preprocess_image cv img of Inl e \<Rightarrow> None | Inr preprocessed \<Rightarrow>
      (case detect_document_contour cv preprocessed of
         Some document_contour \<Rightarrow>
           (case correct_perspective cv img document_contour of Inl e \<Rightarrow> None | Inr corrected \<Rightarrow>
            (case enhance_image cv corrected of Inl e \<Rightarrow> None | Inr enhanced \<Rightarrow> Some enhanced))
       | None \<Rightarrow>
           (case enhance_image cv img of Inl e \<Rightarrow> None | Inr enhanced \<Rightarrow> Some enhanced)))"

section \<open>The camera handler (camera_handler.py)\<close>

text \<open>
  \<open>_enhance_frame\<close>, the visual enhancement: bilateral filter (diameter 9, both sigmas
  75), sharpening with the 3x3 kernel of centre 9 and neighbours -1, conversion to LAB,
  CLAHE (clip limit 2.0, tiles 8x8) on the L plane, merge with the untouched A and B
  planes, conversion back to BGR. Any exception returns the frame unchanged.
\<close>

definition sharpen_kernel :: "int list list" where
  "sharpen_kernel = [[-1, -1, -1], [-1, 9, -1], [-1, -1, -1]]"

definition enhance_frame :: "cv2 \<Rightarrow> image \<Rightarrow> image" where
  "enhance_frame cv frame =
     (case bilateralFilter_checked cv frame 9 75 75 of Inl e \<Rightarrow> frame | Inr denoised \<Rightarrow>
      let sharpened = filter2D cv denoised sharpen_kernel
      in case cvtColor_BGR2LAB cv sharpened of Inl e \<Rightarrow> frame | Inr lab \<Rightarrow>
         let l = clahe_apply cv 2.0 (8, 8) (split_plane lab 0)
         in case merge3 l (split_plane lab 1) (split_plane lab 2) of Inl e \<Rightarrow> frame | Inr enhanced \<Rightarrow>
            (case cvtColor_LAB2BGR cv enhanced of Inl e \<Rightarrow> frame | Inr result \<Rightarrow> result))"

text \<open>
  \<open>np.sum\<close> of a float64 array: the rounded additions in the order of the library; the sum
  of no entries is 0.
\<close>

fun eval_sum :: "sum_shape \<Rightarrow> real list \<Rightarrow> real" where
  "eval_sum (Entry i) xs = (if i < length xs then xs ! i else 0)"
| "eval_sum (Add l r) xs = f64 (eval_sum l xs + eval_sum r xs)"

definition np_sum :: "cv2 \<Rightarrow> real list \<Rightarrow> real" where
  "np_sum cv xs = (if xs = [] then 0 else eval_sum (sum_order cv (length xs)) xs)"

text \<open>
  \<open>.var()\<close> of a float64 array, as numpy computes it: the sum of the entries divided by
  their number is the mean; each entry less the mean is squared; the sum of the squares is
  divided by the number of entries. Every operation is rounded to float64. (On an array
  without entries numpy returns nan; a frame that passes the conversion has entries.)
\<close>

definition np_var :: "cv2 \<Rightarrow> real list \<Rightarrow> real" where
  "np_var cv arr =
     (let rcount = real (length arr);
          arrmean = f64 (np_sum cv arr / rcount);
          x = map (\<lambda>a. f64 (a - arrmean)) arr;
          sq = map (\<lambda>d. f64 (d * d)) x
      in f64 (np_sum cv sq / rcount))"

definition laplacian_variance :: "cv2 \<Rightarrow> image \<Rightarrow> real" where
  "laplacian_variance cv gray =
     np_var cv (concat (map (\<lambda>y. map (\<lambda>x. Laplacian cv gray y x) [0 ..< width gray]) [0 ..< height gray]))"

text \<open>
  The loop of \<open>_select_sharpest_frame\<close>, with the running \<open>max_variance\<close> and
  \<open>best_frame\<close>; a frame that \<open>cvtColor\<close> refuses raises.
\<close>

fun sharpest_loop :: "cv2 \<Rightarrow> image list \<Rightarrow> real \<Rightarrow> image \<Rightarrow> error + image" where
  "sharpest_loop cv [] max_variance best_frame = Inr best_frame"
| "sharpest_loop cv (frame # rest) max_variance best_frame =
     (case cvtColor_BGR2GRAY cv frame of Inl e \<Rightarrow> Inl e | Inr gray \<Rightarrow>
      let variance = laplacian_variance cv gray
      in if variance > max_variance then sharpest_loop cv rest variance frame
         else sharpest_loop cv rest max_variance best_frame)"

text \<open>\<open>frames[0]\<close> raises \<open>IndexError\<close> on an empty list.\<close>

definition select_sharpest_frame :: "cv2 \<Rightarrow> image list \<Rightarrow> error + image" where
  "select_sharpest_frame cv frames =
     (case frames of [] \<Rightarrow> Inl IndexError | f0 # _ \<Rightarrow> sharpest_loop cv frames 0 f0)"

text \<open>The score of a frame: the Laplacian variance of its luminance (0 when refused).\<close>

definition sharpness :: "cv2 \<Rightarrow> image \<Rightarrow> real" where
  "sharpness cv frame =
     (case cvtColor_BGR2GRAY cv frame of Inl e \<Rightarrow> 0 | Inr gray \<Rightarrow> laplacian_variance cv gray)"

text \<open>
  \<open>_enhance_for_document\<close>: grayscale, 5x5 Gaussian blur, adaptive threshold, back to
  BGR; any exception returns the frame unchanged.
\<close>

definition enhance_for_document :: "cv2 \<Rightarrow> image \<Rightarrow> image" where
  "enhance_for_document cv frame =
     (case cvtColor_BGR2GRAY cv frame of Inl e \<Rightarrow> frame | Inr gray \<Rightarrow>
      let blurred = GaussianBlur cv gray (5, 5) 0
      in case adaptiveThreshold cv blurred 255 11 2 of Inl e \<Rightarrow> frame | Inr thresh \<Rightarrow>
         (case cvtColor_GRAY2BGR thresh of Inl e \<Rightarrow> frame | Inr result \<Rightarrow> result))"

text \<open>
  The state of a \<open>CameraHandler\<close> that \<open>capture_high_quality\<close> reads: the camera (absent,
  or the results of its coming \<open>read()\<close> calls, \<open>None\<close> for \<open>ret == False\<close>; an exhausted
  device delivers no frame), the flag \<open>is_active\<close> and \<open>current_frame\<close>.
\<close>

record camera_handler =
  camera :: "image option list option"
  is_active :: bool
  current_frame :: "image option"

definition get_frame :: "camera_handler \<Rightarrow> image option" where
  "get_frame h = current_frame h"

text \<open>
  The loop \<open>for _ in range(5)\<close>: the frames read, and the camera afterwards. The pauses
  between the reads (\<open>time.sleep\<close>) do not change the result.
\<close>

fun read_burst :: "nat \<Rightarrow> image option list \<Rightarrow> image list \<times> image option list" where
  "read_burst 0 cam = ([], cam)"
| "read_burst (Suc n) [] = read_burst n []"
| "read_burst (Suc n) (r # cam) =
     (let (frames, cam') = read_burst n cam
      in (case r of None \<Rightarrow> (frames, cam') | Some frame \<Rightarrow> (frame # frames, cam')))"

definition capture_high_quality :: "cv2 \<Rightarrow> camera_handler \<Rightarrow> image option \<times> camera_handler" where
  "capture_high_quality cv h =
     (if \<not> is_active h then (None, h)
      else case camera h of
        None \<Rightarrow> (None, h)
      | Some cam \<Rightarrow>
          let (frames, cam') = read_burst 5 cam;
              h' = h\<lparr>camera := Some cam'\<rparr>
          in if frames = [] then (None, h')
             else (case select_sharpest_frame cv frames of
                     Inl e \<Rightarrow> (get_frame h', h')
                   | Inr best_frame \<Rightarrow> (Some (enhance_for_document cv best_frame), h')))"

section \<open>The OpenCV calls of a run\<close>

text \<open>
  Which library functions a run calls, and in which order, is part of what the code does.
  For each function of the pipeline the list of its OpenCV calls follows the same control
  flow as the function itself; a call that raises is the last one of its function.
\<close>

datatype color_code = BGR2GRAY | GRAY2BGR | BGR2LAB | LAB2BGR

datatype cv_call =
    Call_cvtColor color_code
  | Call_GaussianBlur
  | Call_Canny
  | Call_getStructuringElement
  | Call_dilate
  | Call_findContours
  | Call_contourArea
  | Call_arcLength
  | Call_approxPolyDP
  | Call_getPerspectiveTransform
  | Call_warpPerspective
  | Call_adaptiveThreshold
  | Call_medianBlur
  | Call_bilateralFilter
  | Call_filter2D
  | Call_split
  | Call_createCLAHE
  | Call_CLAHE_apply
  | Call_merge

definition preprocess_image_calls :: "cv2 \<Rightarrow> image \<Rightarrow> cv_call list" where
  "preprocess_image_calls cv img =
     (case cvtColor_BGR2GRAY cv img of
        Inl e \<Rightarrow> [Call_cvtColor BGR2GRAY]
      | Inr gray \<Rightarrow>
          [Call_cvtColor BGR2GRAY, Call_GaussianBlur, Call_Canny, Call_getStructuringElement,
           Call_dilate])"

fun quad_search_calls :: "cv2 \<Rightarrow> contour list \<Rightarrow> cv_call list" where
  "quad_search_calls cv [] = []"
| "quad_search_calls cv (cnt # rest) =
     (let epsilon = 0.02 * arcLength cv cnt True;
          approx = approxPolyDP cv cnt epsilon True
      in [Call_arcLength, Call_approxPolyDP]
         @ (if length approx = 4 then [] else quad_search_calls cv rest))"

text \<open>\<open>sorted\<close> calls its key, \<open>cv2.contourArea\<close>, once for every contour.\<close>

definition detect_document_contour_calls :: "cv2 \<Rightarrow> image \<Rightarrow> cv_call list" where
  "detect_document_contour_calls cv processed_image =
     (let cnts = findContours cv processed_image in
      Call_findContours #
      (if cnts = [] then []
       else replicate (length cnts) Call_contourArea
            @ quad_search_calls cv (take 5 (py_sorted_reverse (contourArea cv) cnts))))"

definition correct_perspective_calls :: "contour \<Rightarrow> cv_call list" where
  "correct_perspective_calls contour =
     (case perspective_plan contour of
        Inl e \<Rightarrow> []
      | Inr plan \<Rightarrow> [Call_getPerspectiveTransform, Call_warpPerspective])"

definition enhance_image_calls :: "cv2 \<Rightarrow> image \<Rightarrow> cv_call list" where
  "enhance_image_calls cv img =
     (if ndim3 img then [Call_cvtColor BGR2GRAY] else [])
     @ (case (if ndim3 img then cvtColor_BGR2GRAY cv img else Inr img) of
          Inl e \<Rightarrow> []
        | Inr gray \<Rightarrow>
            Call_adaptiveThreshold #
            (case adaptiveThreshold cv gray 255 11 2 of
               Inl e \<Rightarrow> []
             | Inr adaptive_thresh \<Rightarrow>
                 Call_medianBlur #
                 (case medianBlur3 adaptive_thresh of
                    Inl e \<Rightarrow> []
                  | Inr denoised \<Rightarrow> if ndim3 img then [Call_cvtColor GRAY2BGR] else [])))"

definition process_document_calls :: "cv2 \<Rightarrow> image \<Rightarrow> cv_call list" where
  "process_document_calls cv img =
     preprocess_image_calls cv img
     @ (case preprocess_image cv img of
          Inl e \<Rightarrow> []
        | Inr preprocessed \<Rightarrow>
            detect_document_contour_calls cv preprocessed
            @ (case detect_document_contour cv preprocessed of
                 Some document_contour \<Rightarrow>
                   correct_perspective_calls document_contour
                   @ (case correct_perspective cv img document_contour of
                        Inl e \<Rightarrow> []
                      | Inr corrected \<Rightarrow> enhance_image_calls cv corrected)
               | None \<Rightarrow> enhance_image_calls cv img))"

definition enhance_frame_calls :: "cv2 \<Rightarrow> image \<Rightarrow> cv_call list" where
  "enhance_frame_calls cv frame =
     Call_bilateralFilter #
     (case bilateralFilter_checked cv frame 9 75 75 of
        Inl e \<Rightarrow> []
      | Inr denoised \<Rightarrow>
          [Call_filter2D, Call_cvtColor BGR2LAB]
          @ (case cvtColor_BGR2LAB cv (filter2D cv denoised sharpen_kernel) of
               Inl e \<Rightarrow> []
             | Inr lab \<Rightarrow>
                 [Call_split, Call_createCLAHE, Call_CLAHE_apply, Call_merge]
                 @ (case merge3 (clahe_apply cv 2.0 (8, 8) (split_plane lab 0))
                           (split_plane lab 1) (split_plane lab 2) of
                      Inl e \<Rightarrow> []
                    | Inr enhanced \<Rightarrow> [Call_cvtColor LAB2BGR])))"

section \<open>Concrete inputs\<close>

text \<open>
  A small instance of the library for evaluating the model: every filter is the identity,
  the luminance of a pixel is its green value, the local mean of a pixel is the pixel itself,
  one square contour is found in every edge map, polygon approximation leaves a contour as
  it is, warping fills the requested size with the value 7, and sums are taken from left
  to right (\<open>left_sum\<close>).
\<close>

fun left_sum :: "nat \<Rightarrow> sum_shape" where
  "left_sum 0 = Entry 0"
| "left_sum (Suc n) = Add (left_sum n) (Entry (Suc n))"

definition toy_cv :: cv2 where
  "toy_cv = \<lparr>
     bgr2gray_px = (\<lambda>b g r. g),
     GaussianBlur = (\<lambda>img ksize sigma. img),
     Canny = (\<lambda>img low high. img),
     dilate = (\<lambda>img ksize iterations. img),
     findContours = (\<lambda>img. [[(0, 0), (0, 2), (2, 2), (2, 0)]]),
     contourArea = (\<lambda>cnt. 4),
     arcLength = (\<lambda>cnt closed. 8),
     approxPolyDP = (\<lambda>cnt epsilon closed. cnt),
     getPerspectiveTransform = (\<lambda>src dst. [[1, 0, 0], [0, 1, 0], [0, 0, 1]]),
     warpPerspective = (\<lambda>img M dsize. Color (nat (snd dsize)) (nat (fst dsize)) 3 (\<lambda>y x c. 7)),
     gaussian_mean = (\<lambda>img blockSize y x. pixel img y x 0),
     Laplacian = (\<lambda>img y x. real (unat (pixel img y x 0))),
     bilateralFilter = (\<lambda>img d sigmaColor sigmaSpace. img),
     filter2D = (\<lambda>img kernel. img),
     bgr2lab_px = (\<lambda>p. p),
     lab2bgr_px = (\<lambda>p. p),
     clahe_apply = (\<lambda>clipLimit tileGridSize img. img),
     sum_order = (\<lambda>n. left_sum (n - 1)) \<rparr>"

definition page :: image where
  "page = Color 4 4 3 (\<lambda>y x c. 200)"

text \<open>
  The same library, finding three contours whose area is their number of vertices: a
  triangle, a square and a single point.
\<close>

definition ranking_cv :: cv2 where
  "ranking_cv = toy_cv \<lparr>
     findContours := (\<lambda>img. [[(0, 0), (1, 0), (0, 1)], [(0, 0), (0, 2), (2, 2), (2, 0)], [(5, 5)]]),
     contourArea := (\<lambda>cnt. real (length cnt)) \<rparr>"

text \<open>
  Two frames of one row and two columns: a flat one, and one whose two pixels differ. With
  the library above the Laplacian variance of the first is 0 and of the second is 1.
\<close>

definition flat_frame :: image where
  "flat_frame = Color 1 2 3 (\<lambda>y x c. 5)"

definition sharp_frame :: image where
  "sharp_frame = Color 1 2 3 (\<lambda>y x c. if x = 0 then 0 else 2)"

text \<open>An active handler whose camera fails on each of the next five reads.\<close>

definition failing_handler :: camera_handler where
  "failing_handler = \<lparr> camera = Some [None, None, None, None, None], is_active = True,
     current_frame = Some page \<rparr>"

text \<open>
  The edge map that the first library gives for \<open>page\<close>, and the library with no contour
  in any edge map.
\<close>

definition page_edges :: image where
  "page_edges = Gray 4 4 (\<lambda>y x. 200)"

definition blank_cv :: cv2 where
  "blank_cv = toy_cv \<lparr> findContours := (\<lambda>img. []) \<rparr>"

text \<open>
  A photograph of 100 by 100 pixels: a grey sheet (value 200) between rows and columns 20
  and 79 on a black ground. The library that goes with it finds the outline of the sheet as
  the one contour of the edge map, and the warp of the photograph to the outline shows the
  sheet alone.
\<close>

definition sheet :: image where
  "sheet = Color 100 100 3 (\<lambda>y x c. if 20 \<le> y \<and> y < 80 \<and> 20 \<le> x \<and> x < 80 then 200 else 0)"

definition sheet_cv :: cv2 where
  "sheet_cv = toy_cv \<lparr>
     findContours := (\<lambda>img. [[(18, 18), (18, 81), (81, 81), (81, 18)]]),
     contourArea := (\<lambda>cnt. 3969),
     arcLength := (\<lambda>cnt closed. 252),
     warpPerspective := (\<lambda>img M dsize. Color (nat (snd dsize)) (nat (fst dsize)) 3 (\<lambda>y x c. 200)) \<rparr>"

definition sheet_edges :: image where
  "sheet_edges = Gray 100 100 (\<lambda>y x. if 20 \<le> y \<and> y < 80 \<and> 20 \<le> x \<and> x < 80 then 200 else 0)"

definition sheet_rectified :: image where
  "sheet_rectified = Color 63 63 3 (\<lambda>y x c. 200)"

section \<open>Properties of floating-point rounding\<close>

lemma pow2_powr: "pow2 k = 2 powr (of_int k)"
proof (cases "0 \<le> k")
  case True
  then have "2 powr (of_int k) = (2::real) powr (real (nat k))" by simp
  also have "\<dots> = 2 ^ nat k" by (simp add: powr_realpow)
  finally show ?thesis using True by (simp add: pow2_def)
next
  case False
  then have "(2::real) powr (of_int k) = 2 powr (- real (nat (- k)))" by simp
  also have "\<dots> = inverse (2 powr (real (nat (- k))))" by (rule powr_minus)
  also have "\<dots> = 1 / 2 ^ nat (- k)" by (simp add: powr_realpow inverse_eq_divide)
  finally show ?thesis using False by (simp add: pow2_def)
qed

lemma pow2_pos: "0 < pow2 k"
  by (simp add: pow2_powr)

lemma pow2_add: "pow2 (a + b) = pow2 a * pow2 b"
  by (simp add: pow2_powr powr_add)

lemma pow2_mono: "a \<le> b \<Longrightarrow> pow2 a \<le> pow2 b"
  by (simp add: pow2_powr powr_mono)

lemma pow2_nat: "pow2 (int n) = 2 ^ n"
  by (simp add: pow2_def)

lemma pow2_of_int: "0 \<le> k \<Longrightarrow> pow2 k = of_int (2 ^ nat k)"
  by (simp add: pow2_def)

lemma round_even_of_int: "round_even (of_int n) = n"
  by (simp add: round_even_def)

lemma round_even_lower: "\<lfloor>x\<rfloor> \<le> round_even x"
  by (simp add: round_even_def Let_def)

lemma round_even_upper: "round_even x \<le> \<lfloor>x\<rfloor> + 1"
  by (simp add: round_even_def Let_def)

lemma round_even_mono:
  assumes "x \<le> y"
  shows "round_even x \<le> round_even y"
proof (cases "\<lfloor>x\<rfloor> = \<lfloor>y\<rfloor>")
  case True
  then have "x - of_int \<lfloor>x\<rfloor> \<le> y - of_int \<lfloor>y\<rfloor>" using assms by simp
  then show ?thesis using True by (auto simp: round_even_def Let_def)
next
  case False
  then have "\<lfloor>x\<rfloor> < \<lfloor>y\<rfloor>" using floor_mono [OF assms] by simp
  then have "round_even x \<le> \<lfloor>y\<rfloor>" using round_even_upper [of x] by simp
  then show ?thesis using round_even_lower [of y] by simp
qed


lemma fround_zero: "fround p 0 = 0"
  by (simp add: fround_def)

text \<open>The value of fround on a positive number whose binade is known.\<close>

lemma fround_binade:
  assumes "pow2 k \<le> x" and "x < pow2 (k + 1)"
  shows "fround p x = of_int (round_even (x / pow2 (k - (int p - 1)))) * pow2 (k - (int p - 1))"
proof -
  have x: "0 < x" using assms(1) pow2_pos [of k] by linarith
  have "\<lfloor>log 2 x\<rfloor> = k"
    using assms x by (simp add: floor_log_eq_powr_iff pow2_powr)
  then show ?thesis using x by (simp add: fround_def Let_def)
qed

lemma binade_exists:
  assumes "0 < x"
  shows "\<exists>k. pow2 k \<le> x \<and> x < pow2 (k + 1)"
proof -
  have "(2::real) powr (of_int \<lfloor>log 2 x\<rfloor>) \<le> x \<and> x < 2 powr (of_int (\<lfloor>log 2 x\<rfloor> + 1))"
    using floor_log_eq_powr_iff [of x 2 "\<lfloor>log 2 x\<rfloor>"] assms by simp
  then show ?thesis unfolding pow2_powr by blast
qed

lemma fround_lower:
  assumes "pow2 k \<le> x" and "x < pow2 (k + 1)" and "0 < p"
  shows "pow2 k \<le> fround p x"
proof -
  let ?e = "k - (int p - 1)"
  have k: "k = ?e + (int p - 1)" by simp
  have "pow2 k = pow2 ?e * pow2 (int p - 1)" by (subst k) (simp only: pow2_add)
  then have pk: "pow2 k = pow2 ?e * of_int (2 ^ nat (int p - 1))"
    using assms(3) by (simp add: pow2_of_int)
  have "of_int (2 ^ nat (int p - 1)) \<le> x / pow2 ?e"
    using assms(1) pk pow2_pos [of ?e] by (simp add: pos_le_divide_eq mult.commute)
  then have "round_even (of_int (2 ^ nat (int p - 1))) \<le> round_even (x / pow2 ?e)"
    by (rule round_even_mono)
  then have "2 ^ nat (int p - 1) \<le> round_even (x / pow2 ?e)"
    by (simp only: round_even_of_int)
  then have "(of_int (2 ^ nat (int p - 1)) :: real) \<le> of_int (round_even (x / pow2 ?e))"
    by (simp only: of_int_le_iff)
  then have "of_int (2 ^ nat (int p - 1)) * pow2 ?e \<le> of_int (round_even (x / pow2 ?e)) * pow2 ?e"
    using pow2_pos [of ?e] by (simp add: mult_le_cancel_right)
  then show ?thesis using pk fround_binade [OF assms(1,2), of p] by (simp add: mult.commute)
qed

lemma fround_upper:
  assumes "pow2 k \<le> x" and "x < pow2 (k + 1)" and "0 < p"
  shows "fround p x \<le> pow2 (k + 1)"
proof -
  let ?e = "k - (int p - 1)"
  have k: "k + 1 = ?e + int p" by simp
  have "pow2 (k + 1) = pow2 ?e * pow2 (int p)" by (subst k) (simp only: pow2_add)
  then have pk: "pow2 (k + 1) = pow2 ?e * of_int (2 ^ p)"
    by (simp add: pow2_nat)
  have "x / pow2 ?e \<le> of_int (2 ^ p)"
    using assms(2) pk pow2_pos [of ?e] by (simp add: pos_divide_le_eq mult.commute)
  then have "round_even (x / pow2 ?e) \<le> round_even (of_int (2 ^ p))"
    by (rule round_even_mono)
  then have "round_even (x / pow2 ?e) \<le> 2 ^ p"
    by (simp only: round_even_of_int)
  then have "(of_int (round_even (x / pow2 ?e)) :: real) \<le> of_int (2 ^ p)"
    by (simp only: of_int_le_iff)
  then have "of_int (round_even (x / pow2 ?e)) * pow2 ?e \<le> of_int (2 ^ p) * pow2 ?e"
    using pow2_pos [of ?e] by (simp add: mult_le_cancel_right)
  then show ?thesis using pk fround_binade [OF assms(1,2), of p] by (simp add: mult.commute)
qed

lemma fround_mono:
  assumes "0 \<le> x" and "x \<le> y" and "0 < p"
  shows "fround p x \<le> fround p y"
proof (cases "x = 0")
  case True
  show ?thesis
  proof (cases "y = 0")
    case True
    then show ?thesis using \<open>x = 0\<close> by simp
  next
    case False
    then have "0 < y" using assms by simp
    from binade_exists [OF this] obtain k where k: "pow2 k \<le> y" "y < pow2 (k + 1)" by blast
    have "0 < fround p y" using fround_lower [OF k assms(3)] pow2_pos [of k] by linarith
    then show ?thesis using \<open>x = 0\<close> by (simp add: fround_zero)
  qed
next
  case False
  then have x: "0 < x" and y: "0 < y" using assms by simp_all
  from binade_exists [OF x] obtain kx where kx: "pow2 kx \<le> x" "x < pow2 (kx + 1)" by blast
  from binade_exists [OF y] obtain ky where ky: "pow2 ky \<le> y" "y < pow2 (ky + 1)" by blast
  have "pow2 kx < pow2 (ky + 1)" using kx(1) ky(2) assms(2) by linarith
  then have "kx < ky + 1" using pow2_mono [of "ky + 1" kx] by (cases "kx < ky + 1") auto
  then consider "kx = ky" | "kx + 1 \<le> ky" by linarith
  then show ?thesis
  proof cases
    case 1
    let ?e = "kx - (int p - 1)"
    have "x / pow2 ?e \<le> y / pow2 ?e"
      using assms(2) pow2_pos [of ?e] by (simp add: divide_right_mono)
    then have "round_even (x / pow2 ?e) \<le> round_even (y / pow2 ?e)" by (rule round_even_mono)
    then have "(of_int (round_even (x / pow2 ?e)) :: real) \<le> of_int (round_even (y / pow2 ?e))"
      by (simp only: of_int_le_iff)
    then have "of_int (round_even (x / pow2 ?e)) * pow2 ?e \<le> of_int (round_even (y / pow2 ?e)) * pow2 ?e"
      using pow2_pos [of ?e] by (simp add: mult_le_cancel_right)
    then show ?thesis
      using fround_binade [OF kx, of p] fround_binade [OF ky, of p] 1 by simp
  next
    case 2
    have "fround p x \<le> pow2 (kx + 1)" by (rule fround_upper [OF kx assms(3)])
    also have "\<dots> \<le> pow2 ky" using 2 by (rule pow2_mono)
    also have "\<dots> \<le> fround p y" by (rule fround_lower [OF ky assms(3)])
    finally show ?thesis .
  qed
qed

lemma round_even_minus: "round_even (- x) = - round_even x"
proof (cases "x = of_int \<lfloor>x\<rfloor>")
  case True
  then obtain n where "x = of_int n" by blast
  then have "- x = of_int (- n)" by simp
  then show ?thesis using \<open>x = of_int n\<close> by (simp only: round_even_of_int)
next
  case False
  let ?f = "\<lfloor>x\<rfloor>"
  have lt: "of_int ?f < x" using False of_int_floor_le [of x] by argo
  have "\<lfloor>- x\<rfloor> = - ?f - 1" using lt by (intro floor_unique) (auto, linarith)
  then have fl: "\<lfloor>- x\<rfloor> = - ?f - 1" and fr: "- x - of_int \<lfloor>- x\<rfloor> = 1 - (x - of_int ?f)"
    by simp_all
  have ev: "even (- ?f - 1) \<longleftrightarrow> odd ?f" by simp
  show ?thesis
    unfolding round_even_def Let_def fr unfolding fl ev
    by (auto simp: not_less)
qed

lemma fround_minus: "fround p (- x) = - fround p x"
  by (simp add: fround_def Let_def round_even_minus)

lemma fround_exact_pos:
  assumes "0 < m" and "m < 2 ^ p" and "0 < p"
  shows "fround p (of_int m * pow2 j) = of_int m * pow2 j"
proof -
  let ?x = "of_int m * pow2 j"
  have x: "0 < ?x" using assms(1) pow2_pos [of j] by simp
  from binade_exists [OF x] obtain k where k: "pow2 k \<le> ?x" "?x < pow2 (k + 1)" by blast
  have "?x < of_int (2 ^ p) * pow2 j"
    using assms(2) pow2_pos [of j] by (simp only: mult_less_cancel_right of_int_less_iff) simp
  also have "\<dots> = pow2 (int p + j)" by (simp add: pow2_add pow2_nat)
  finally have "pow2 k < pow2 (int p + j)" using k(1) by linarith
  then have "k < int p + j" using pow2_mono [of "int p + j" k] by (cases "k < int p + j") auto
  then have e: "0 \<le> j - (k - (int p - 1))" by simp
  let ?e = "k - (int p - 1)"
  have j: "j = (j - ?e) + ?e" by simp
  have "pow2 j = pow2 (j - ?e) * pow2 ?e" by (subst j) (simp only: pow2_add)
  then have pj: "pow2 j = of_int (2 ^ nat (j - ?e)) * pow2 ?e" using e by (simp add: pow2_of_int)
  have "?x / pow2 ?e = of_int (m * 2 ^ nat (j - ?e))"
    using pj pow2_pos [of ?e] by simp
  then have "round_even (?x / pow2 ?e) = m * 2 ^ nat (j - ?e)"
    by (simp only: round_even_of_int)
  then have "fround p ?x = of_int (m * 2 ^ nat (j - ?e)) * pow2 ?e"
    using fround_binade [OF k, of p] by simp
  also have "\<dots> = ?x" using pj by simp
  finally show ?thesis .
qed

lemma fround_exact:
  assumes "\<bar>m\<bar> < 2 ^ p" and "0 < p"
  shows "fround p (of_int m * pow2 j) = of_int m * pow2 j"
proof -
  consider "m = 0" | "0 < m" | "m < 0" by linarith
  then show ?thesis
  proof cases
    case 1
    then show ?thesis by (simp add: fround_zero)
  next
    case 2
    then show ?thesis using assms by (intro fround_exact_pos) auto
  next
    case 3
    then have "fround p (of_int (- m) * pow2 j) = of_int (- m) * pow2 j"
      using assms by (intro fround_exact_pos) auto
    then have "fround p (- (of_int m * pow2 j)) = - (of_int m * pow2 j)" by simp
    then show ?thesis by (simp only: fround_minus)
  qed
qed

lemma fround_int:
  assumes "\<bar>n\<bar> \<le> 2 ^ p" and "0 < p"
  shows "fround p (of_int n) = of_int n"
proof (cases "\<bar>n\<bar> < 2 ^ p")
  case True
  from fround_exact [OF True assms(2), of 0] show ?thesis by (simp add: pow2_def)
next
  case False
  then have n: "\<bar>n\<bar> = 2 ^ p" using assms(1) by simp
  have one: "\<bar>1::int\<bar> < 2 ^ p" using assms(2) by simp
  have "fround p (of_int 1 * pow2 (int p)) = of_int 1 * pow2 (int p)"
    by (rule fround_exact [OF one assms(2)])
  then have pos: "fround p (2 ^ p) = 2 ^ p" by (simp add: pow2_nat)
  from n consider "n = 2 ^ p" | "n = - (2 ^ p)" by (auto simp: abs_if split: if_splits)
  then show ?thesis
  proof cases
    case 1 then show ?thesis using pos by simp
  next
    case 2 then show ?thesis using pos by (simp add: fround_minus)
  qed
qed

lemma fround_nonneg: "0 \<le> x \<Longrightarrow> 0 < p \<Longrightarrow> 0 \<le> fround p x"
  using fround_mono [of 0 x p] by (simp add: fround_zero)

lemma fround_ge_1: "1 \<le> x \<Longrightarrow> 0 < p \<Longrightarrow> 1 \<le> fround p x"
  using fround_mono [of 1 x p] fround_int [of 1 p] by simp


lemma round_even_le:
  assumes "y < of_int N + 1 / 2"
  shows "round_even y \<le> N"
proof (cases "\<lfloor>y\<rfloor> < N")
  case True
  then show ?thesis using round_even_upper [of y] by simp
next
  case False
  have "\<lfloor>y\<rfloor> \<le> N" using assms by (simp add: floor_le_iff)
  then have f: "\<lfloor>y\<rfloor> = N" using False by simp
  then have "y - of_int \<lfloor>y\<rfloor> < 1 / 2" using assms by simp
  then show ?thesis using f by (simp add: round_even_def Let_def)
qed

lemma f32_mono: "0 \<le> x \<Longrightarrow> x \<le> y \<Longrightarrow> f32 x \<le> f32 y"
  by (simp add: f32_def fround_mono)

lemma f32_int: "\<bar>n\<bar> \<le> 2 ^ 24 \<Longrightarrow> f32 (of_int n) = of_int n"
  by (simp add: f32_def fround_int)

lemma f32_sqrt_floor:
  assumes "0 \<le> n" and "n < 2 ^ 24"
  shows "\<lfloor>f32 (sqrt (of_int n))\<rfloor> = \<lfloor>sqrt (of_int n)\<rfloor>"
proof -
  let ?x = "sqrt (of_int n)"
  define k where "k = \<lfloor>?x\<rfloor>"
  have x0: "0 \<le> ?x" using assms(1) by simp
  have k0: "0 \<le> k" using x0 by (simp add: k_def)
  have kx: "of_int k \<le> ?x" and xk: "?x < of_int k + 1" unfolding k_def by linarith+
  have "?x < sqrt ((2 ^ 12)\<^sup>2)"
    using assms by (simp only: real_sqrt_less_iff) (simp add: of_int_less_iff [symmetric] del: of_int_less_iff)
  then have x4096: "?x < 4096" by simp
  then have k4095: "k \<le> 4095" using kx by linarith
  have xsq: "?x\<^sup>2 = of_int n" using assms(1) by simp
  have "?x\<^sup>2 < (of_int k + 1)\<^sup>2" using xk x0 by (intro power_strict_mono) simp_all
  then have "real_of_int n < of_int ((k + 1)\<^sup>2)" using xsq by simp
  then have "n < (k + 1)\<^sup>2" by (simp only: of_int_less_iff)
  then have nle: "real_of_int n \<le> (of_int k + 1)\<^sup>2 - 1"
  proof -
    assume "n < (k + 1)\<^sup>2"
    then have "n \<le> (k + 1)\<^sup>2 - 1" by simp
    then have "real_of_int n \<le> of_int ((k + 1)\<^sup>2 - 1)" by (simp only: of_int_le_iff)
    then show ?thesis by simp
  qed
  have lower: "of_int k \<le> f32 ?x"
  proof -
    have "f32 (of_int k) \<le> f32 ?x" using kx k0 by (intro f32_mono) simp_all
    moreover have "f32 (of_int k) = of_int k" using k0 k4095 by (intro f32_int) simp
    ultimately show ?thesis by simp
  qed
  have upper: "f32 ?x < of_int k + 1"
  proof (cases "k + 1 \<le> 2048")
    case True
    let ?m = "(k + 1) * 4096 - 1"
    let ?r = "of_int ?m * pow2 (- 12)"
    have r: "?r = of_int k + 1 - 1 / 4096" by (simp add: pow2_def field_simps)
    have m0: "0 \<le> ?m" using k0 by (simp add: algebra_simps)
    have m1: "?m < 16777216" using k4095 by (simp add: algebra_simps)
    have mb: "\<bar>?m\<bar> < 2 ^ 24" using m0 m1 by (simp only: abs_of_nonneg) simp
    have rr: "f32 ?r = ?r" unfolding f32_def by (rule fround_exact [OF mb]) simp
    have kr: "real_of_int k + 1 \<le> 2048" using True by linarith
    have "(of_int k + 1)\<^sup>2 - 1 \<le> (real_of_int k + 1 - 1 / 4096)\<^sup>2"
      using kr by (simp add: power2_eq_square algebra_simps)
    then have "real_of_int n \<le> (of_int k + 1 - 1 / 4096)\<^sup>2" using nle by linarith
    moreover have "0 \<le> real_of_int k + 1 - 1 / 4096" using k0 by simp
    ultimately have "?x \<le> of_int k + 1 - 1 / 4096" by (intro real_le_lsqrt) simp_all
    then have "f32 ?x \<le> f32 ?r" using x0 r by (intro f32_mono) simp_all
    then show ?thesis using rr r by simp
  next
    case False
    then have k2048: "2048 \<le> k" by simp
    have b1: "pow2 11 \<le> ?x" using k2048 kx by (simp add: pow2_def)
    have b2: "?x < pow2 (11 + 1)" using x4096 by (simp add: pow2_def)
    have fr: "f32 ?x = of_int (round_even (?x / pow2 (- 12))) * pow2 (- 12)"
      unfolding f32_def using fround_binade [OF b1 b2, of 24] by simp
    have kr: "real_of_int k + 1 \<le> 4096" using k4095 by linarith
    have "(of_int k + 1)\<^sup>2 - 1 < (real_of_int k + 1 - 1 / 8192)\<^sup>2"
      using kr by (simp add: power2_eq_square algebra_simps)
    then have "real_of_int n < (of_int k + 1 - 1 / 8192)\<^sup>2" using nle by linarith
    moreover have "0 \<le> real_of_int k + 1 - 1 / 8192" using k0 by simp
    ultimately have "?x < of_int k + 1 - 1 / 8192" by (intro real_less_lsqrt) simp_all
    then have "?x / pow2 (- 12) < of_int ((k + 1) * 4096 - 1) + 1 / 2"
      by (simp add: pow2_def)
    then have "round_even (?x / pow2 (- 12)) \<le> (k + 1) * 4096 - 1" by (rule round_even_le)
    then have "real_of_int (round_even (?x / pow2 (- 12))) \<le> of_int ((k + 1) * 4096 - 1)"
      by (simp only: of_int_le_iff)
    then have "f32 ?x \<le> of_int ((k + 1) * 4096 - 1) * pow2 (- 12)"
      unfolding fr using pow2_pos [of "- 12"] by (simp only: mult_le_cancel_right) simp
    then show ?thesis by (simp add: pow2_def)
  qed
  have "\<lfloor>f32 ?x\<rfloor> = k" using lower upper by (intro floor_unique) simp_all
  then show ?thesis by (simp add: k_def)
qed

section \<open>Properties of the index scans\<close>

lemma arg_scan_least:
  fixes pre :: "('a::linorder) list"
  assumes "bi < length pre" and "\<forall>j < length pre. pre ! bi \<le> pre ! j"
    and "\<forall>j < bi. pre ! bi < pre ! j"
  shows "arg_scan (<) xs (length pre) bi (pre ! bi) < length (pre @ xs)
    \<and> (\<forall>j < length (pre @ xs). (pre @ xs) ! arg_scan (<) xs (length pre) bi (pre ! bi) \<le> (pre @ xs) ! j)
    \<and> (\<forall>j < arg_scan (<) xs (length pre) bi (pre ! bi).
          (pre @ xs) ! arg_scan (<) xs (length pre) bi (pre ! bi) < (pre @ xs) ! j)"
  using assms
proof (induction xs arbitrary: pre bi)
  case Nil
  then show ?case by simp
next
  case (Cons x xs)
  show ?case
  proof (cases "x < pre ! bi")
    case True
    let ?pre = "pre @ [x]"
    have a: "length pre < length ?pre" by simp
    have b: "\<forall>j < length ?pre. ?pre ! length pre \<le> ?pre ! j"
    proof (intro allI impI)
      fix j assume "j < length ?pre"
      then consider "j < length pre" | "j = length pre" by fastforce
      then show "?pre ! length pre \<le> ?pre ! j"
      proof cases
        case 1
        then have "pre ! bi \<le> pre ! j" using Cons.prems(2) by simp
        then show ?thesis using True 1 by (simp add: nth_append)
      next
        case 2
        then show ?thesis by simp
      qed
    qed
    have c: "\<forall>j < length pre. ?pre ! length pre < ?pre ! j"
    proof (intro allI impI)
      fix j assume j: "j < length pre"
      then have "pre ! bi \<le> pre ! j" using Cons.prems(2) by simp
      then show "?pre ! length pre < ?pre ! j" using True j by (simp add: nth_append)
    qed
    from Cons.IH [OF a b c] True show ?thesis by simp
  next
    case False
    let ?pre = "pre @ [x]"
    have a: "bi < length ?pre" using Cons.prems by simp
    have b: "\<forall>j < length ?pre. ?pre ! bi \<le> ?pre ! j"
      using False Cons.prems by (auto simp: nth_append less_Suc_eq)
    have c: "\<forall>j < bi. ?pre ! bi < ?pre ! j"
      using False Cons.prems by (auto simp: nth_append)
    from Cons.IH [OF a b c] False Cons.prems(1) show ?thesis by (simp add: nth_append)
  qed
qed

lemma arg_scan_greatest:
  fixes pre :: "('a::linorder) list"
  assumes "bi < length pre" and "\<forall>j < length pre. pre ! j \<le> pre ! bi"
    and "\<forall>j < bi. pre ! j < pre ! bi"
  shows "arg_scan (>) xs (length pre) bi (pre ! bi) < length (pre @ xs)
    \<and> (\<forall>j < length (pre @ xs). (pre @ xs) ! j \<le> (pre @ xs) ! arg_scan (>) xs (length pre) bi (pre ! bi))
    \<and> (\<forall>j < arg_scan (>) xs (length pre) bi (pre ! bi).
          (pre @ xs) ! j < (pre @ xs) ! arg_scan (>) xs (length pre) bi (pre ! bi))"
  using assms
proof (induction xs arbitrary: pre bi)
  case Nil
  then show ?case by simp
next
  case (Cons x xs)
  show ?case
  proof (cases "x > pre ! bi")
    case True
    let ?pre = "pre @ [x]"
    have a: "length pre < length ?pre" by simp
    have b: "\<forall>j < length ?pre. ?pre ! j \<le> ?pre ! length pre"
    proof (intro allI impI)
      fix j assume "j < length ?pre"
      then consider "j < length pre" | "j = length pre" by fastforce
      then show "?pre ! j \<le> ?pre ! length pre"
      proof cases
        case 1
        then have "pre ! j \<le> pre ! bi" using Cons.prems(2) by simp
        then show ?thesis using True 1 by (simp add: nth_append)
      next
        case 2
        then show ?thesis by simp
      qed
    qed
    have c: "\<forall>j < length pre. ?pre ! j < ?pre ! length pre"
    proof (intro allI impI)
      fix j assume j: "j < length pre"
      then have "pre ! j \<le> pre ! bi" using Cons.prems(2) by simp
      then show "?pre ! j < ?pre ! length pre" using True j by (simp add: nth_append)
    qed
    from Cons.IH [OF a b c] True show ?thesis by simp
  next
    case False
    let ?pre = "pre @ [x]"
    have a: "bi < length ?pre" using Cons.prems by simp
    have b: "\<forall>j < length ?pre. ?pre ! j \<le> ?pre ! bi"
      using False Cons.prems by (auto simp: nth_append less_Suc_eq)
    have c: "\<forall>j < bi. ?pre ! j < ?pre ! bi"
      using False Cons.prems by (auto simp: nth_append)
    from Cons.IH [OF a b c] False Cons.prems(1) show ?thesis by (simp add: nth_append)
  qed
qed

lemma np_argmin_first:
  fixes xs :: "('a::linorder) list"
  assumes "xs \<noteq> []"
  shows "\<exists>i < length xs. np_argmin xs = Inr i \<and> (\<forall>j < length xs. xs ! i \<le> xs ! j)
    \<and> (\<forall>j < i. xs ! i < xs ! j)"
proof -
  obtain x r where xs: "xs = x # r" using assms by (cases xs) auto
  have "arg_scan (<) r (length [x]) 0 ([x] ! 0) < length ([x] @ r)
    \<and> (\<forall>j < length ([x] @ r). ([x] @ r) ! arg_scan (<) r (length [x]) 0 ([x] ! 0) \<le> ([x] @ r) ! j)
    \<and> (\<forall>j < arg_scan (<) r (length [x]) 0 ([x] ! 0).
          ([x] @ r) ! arg_scan (<) r (length [x]) 0 ([x] ! 0) < ([x] @ r) ! j)"
    by (rule arg_scan_least) simp_all
  then show ?thesis by (simp add: xs np_argmin_def)
qed

lemma np_argmax_first:
  fixes xs :: "('a::linorder) list"
  assumes "xs \<noteq> []"
  shows "\<exists>i < length xs. np_argmax xs = Inr i \<and> (\<forall>j < length xs. xs ! j \<le> xs ! i)
    \<and> (\<forall>j < i. xs ! j < xs ! i)"
proof -
  obtain x r where xs: "xs = x # r" using assms by (cases xs) auto
  have "arg_scan (>) r (length [x]) 0 ([x] ! 0) < length ([x] @ r)
    \<and> (\<forall>j < length ([x] @ r). ([x] @ r) ! j \<le> ([x] @ r) ! arg_scan (>) r (length [x]) 0 ([x] ! 0))
    \<and> (\<forall>j < arg_scan (>) r (length [x]) 0 ([x] ! 0).
          ([x] @ r) ! j < ([x] @ r) ! arg_scan (>) r (length [x]) 0 ([x] ! 0))"
    by (rule arg_scan_greatest) simp_all
  then show ?thesis by (simp add: xs np_argmax_def)
qed

lemma order_points_slots_gen:
  assumes "pts \<noteq> []"
  shows "\<exists>ptl ptr pbr pbl. order_points pts = Inr [ptl, ptr, pbr, pbl]
    \<and> first_least key_sum pts ptl \<and> first_greatest key_diff pts ptr
    \<and> first_greatest key_sum pts pbr \<and> first_least key_diff pts pbl"
proof -
  let ?s = "np_sum_axis1 pts" and ?d = "np_diff_axis1 pts"
  have ls: "length ?s = length pts" and ld: "length ?d = length pts"
    by (simp_all add: np_sum_axis1_def np_diff_axis1_def)
  have ns: "?s \<noteq> []" and nd: "?d \<noteq> []"
    using assms by (simp_all add: np_sum_axis1_def np_diff_axis1_def)
  have sk: "\<And>i. i < length pts \<Longrightarrow> ?s ! i = key_sum (pts ! i)"
    by (simp add: np_sum_axis1_def key_sum_def case_prod_beta)
  have dk: "\<And>i. i < length pts \<Longrightarrow> ?d ! i = - key_diff (pts ! i)"
    by (simp add: np_diff_axis1_def key_diff_def case_prod_beta)
  from np_argmin_first [OF ns] obtain i0 where i0: "i0 < length pts" "np_argmin ?s = Inr i0"
    "\<forall>j < length pts. ?s ! i0 \<le> ?s ! j" "\<forall>j < i0. ?s ! i0 < ?s ! j"
    using ls by auto
  from np_argmax_first [OF ns] obtain i2 where i2: "i2 < length pts" "np_argmax ?s = Inr i2"
    "\<forall>j < length pts. ?s ! j \<le> ?s ! i2" "\<forall>j < i2. ?s ! j < ?s ! i2"
    using ls by auto
  from np_argmin_first [OF nd] obtain i1 where i1: "i1 < length pts" "np_argmin ?d = Inr i1"
    "\<forall>j < length pts. ?d ! i1 \<le> ?d ! j" "\<forall>j < i1. ?d ! i1 < ?d ! j"
    using ld by auto
  from np_argmax_first [OF nd] obtain i3 where i3: "i3 < length pts" "np_argmax ?d = Inr i3"
    "\<forall>j < length pts. ?d ! j \<le> ?d ! i3" "\<forall>j < i3. ?d ! j < ?d ! i3"
    using ld by auto
  have res: "order_points pts = Inr [pts ! i0, pts ! i1, pts ! i2, pts ! i3]"
    using i0(2) i1(2) i2(2) i3(2) by (simp add: order_points_def Let_def)
  have f0: "first_least key_sum pts (pts ! i0)"
    unfolding first_least_def using i0 sk by (intro exI [of _ i0]) auto
  have f2: "first_greatest key_sum pts (pts ! i2)"
    unfolding first_greatest_def using i2 sk by (intro exI [of _ i2]) auto
  have f1: "first_greatest key_diff pts (pts ! i1)"
    unfolding first_greatest_def
  proof (intro exI [of _ i1] conjI allI impI)
    show "i1 < length pts" by (rule i1(1))
    show "pts ! i1 = pts ! i1" ..
  next
    fix j assume j: "j < length pts"
    then have "?d ! i1 \<le> ?d ! j" using i1(3) by simp
    then show "key_diff (pts ! j) \<le> key_diff (pts ! i1)" using dk j i1(1) by simp
  next
    fix j assume j: "j < i1"
    then have "?d ! i1 < ?d ! j" using i1(4) by simp
    then show "key_diff (pts ! j) < key_diff (pts ! i1)" using dk j i1(1) by simp
  qed
  have f3: "first_least key_diff pts (pts ! i3)"
    unfolding first_least_def
  proof (intro exI [of _ i3] conjI allI impI)
    show "i3 < length pts" by (rule i3(1))
    show "pts ! i3 = pts ! i3" ..
  next
    fix j assume j: "j < length pts"
    then have "?d ! j \<le> ?d ! i3" using i3(3) by simp
    then show "key_diff (pts ! i3) \<le> key_diff (pts ! j)" using dk j i3(1) by simp
  next
    fix j assume j: "j < i3"
    then have "?d ! j < ?d ! i3" using i3(4) by simp
    then show "key_diff (pts ! i3) < key_diff (pts ! j)" using dk j i3(1) by simp
  qed
  show ?thesis using res f0 f1 f2 f3 by blast
qed

lemma first_least_least:
  assumes "first_least key pts p"
  shows "p \<in> set pts \<and> (\<forall>r \<in> set pts. key p \<le> key r)"
proof -
  from assms obtain i where i: "i < length pts" "p = pts ! i"
    "\<forall>j < length pts. key (pts ! i) \<le> key (pts ! j)"
    unfolding first_least_def by blast
  have "key p \<le> key r" if "r \<in> set pts" for r
  proof -
    from that obtain j where "j < length pts" "r = pts ! j" by (auto simp: in_set_conv_nth)
    then show ?thesis using i by simp
  qed
  then show ?thesis using i by simp
qed

lemma first_greatest_greatest:
  assumes "first_greatest key pts p"
  shows "p \<in> set pts \<and> (\<forall>r \<in> set pts. key r \<le> key p)"
proof -
  from assms obtain i where i: "i < length pts" "p = pts ! i"
    "\<forall>j < length pts. key (pts ! j) \<le> key (pts ! i)"
    unfolding first_greatest_def by blast
  have "key r \<le> key p" if "r \<in> set pts" for r
  proof -
    from that obtain j where "j < length pts" "r = pts ! j" by (auto simp: in_set_conv_nth)
    then show ?thesis using i by simp
  qed
  then show ?thesis using i by simp
qed

lemma first_least_unique:
  assumes "unique_least key pts" and "set qs = set pts"
    and "first_least key pts p" and "first_least key qs q"
  shows "p = q"
  using assms(1,2) first_least_least [OF assms(3)] first_least_least [OF assms(4)]
  unfolding unique_least_def by blast

lemma first_greatest_unique:
  assumes "unique_greatest key pts" and "set qs = set pts"
    and "first_greatest key pts p" and "first_greatest key qs q"
  shows "p = q"
  using assms(1,2) first_greatest_greatest [OF assms(3)] first_greatest_greatest [OF assms(4)]
  unfolding unique_greatest_def by blast

section \<open>Point ordering: the slots\<close>

text \<open>
  Claim C2, as the code has it. For four input points \<open>order_points\<close> returns four points:
  the top-left slot holds the first point, in input order, with the least x + y; the
  bottom-right slot the first point with the greatest x + y; the top-right slot the first
  point with the greatest x - y (the least y - x, since \<open>np.diff\<close> subtracts the first
  column from the second); the bottom-left slot the first point with the least x - y.
\<close>

theorem order_points_slots:
  assumes "length pts = 4"
  shows "\<exists>ptl ptr pbr pbl. order_points pts = Inr [ptl, ptr, pbr, pbl]
    \<and> first_least key_sum pts ptl \<and> first_greatest key_diff pts ptr
    \<and> first_greatest key_sum pts pbr \<and> first_least key_diff pts pbl"
proof -
  have "pts \<noteq> []" using assms by auto
  then show ?thesis by (rule order_points_slots_gen)
qed

theorem order_points_slots_witness:
  "length [(0, 0), (10, 0), (10, 10), (0::int, 10::int)] = 4
   \<and> (\<exists>ptl ptr pbr pbl. order_points [(0, 0), (10, 0), (10, 10), (0, 10)] = Inr [ptl, ptr, pbr, pbl]
    \<and> first_least key_sum [(0, 0), (10, 0), (10, 10), (0, 10)] ptl
    \<and> first_greatest key_diff [(0, 0), (10, 0), (10, 10), (0, 10)] ptr
    \<and> first_greatest key_sum [(0, 0), (10, 0), (10, 10), (0, 10)] pbr
    \<and> first_least key_diff [(0, 0), (10, 0), (10, 10), (0, 10)] pbl)"
proof -
  have h: "length [(0, 0), (10, 0), (10, 10), (0::int, 10::int)] = 4" by simp
  show ?thesis using h order_points_slots [OF h] by simp
qed

text \<open>
  The claim as the specification words it fails on the square
  (0,0), (10,0), (10,10), (0,10): the top-right slot receives (10,0), which does not
  minimise x - y, and the point (0,10) that does is not the one maximising x - y.
\<close>

theorem order_points_top_right_not_least_diff:
  "order_points [(0, 0), (10, 0), (10, 10), (0, 10)] = Inr [(0, 0), (10, 0), (10, 10), (0, 10)]
   \<and> \<not> first_least key_diff [(0, 0), (10, 0), (10, 10), (0, 10)] (10, 0)
   \<and> \<not> first_greatest key_diff [(0, 0), (10, 0), (10, 10), (0, 10)] (0, 10)"
proof (intro conjI)
  show "order_points [(0, 0), (10, 0), (10, 10), (0, 10)] = Inr [(0, 0), (10, 0), (10, 10), (0, 10)]"
    by (simp add: order_points_def np_sum_axis1_def np_diff_axis1_def
      np_argmin_def np_argmax_def)
  show "\<not> first_least key_diff [(0, 0), (10, 0), (10, 10), (0, 10)] (10, 0)"
  proof
    assume "first_least key_diff [(0, 0), (10, 0), (10, 10), (0, 10)] (10, 0)"
    from first_least_least [OF this]
    have "key_diff (10, 0) \<le> key_diff (0, 10)" by simp
    then show False by (simp add: key_diff_def)
  qed
  show "\<not> first_greatest key_diff [(0, 0), (10, 0), (10, 10), (0, 10)] (0, 10)"
  proof
    assume "first_greatest key_diff [(0, 0), (10, 0), (10, 10), (0, 10)] (0, 10)"
    from first_greatest_greatest [OF this]
    have "key_diff (10, 0) \<le> key_diff (0, 10)" by simp
    then show False by (simp add: key_diff_def)
  qed
qed

lemma uniquely_extremal_square10:
  "uniquely_extremal [(0, 0), (10, 0), (10, 10), (0, 10)]"
  by (simp add: uniquely_extremal_def unique_least_def unique_greatest_def key_sum_def key_diff_def)

section \<open>Point ordering: independence of the input order\<close>

text \<open>
  Claim C7. When each of the four extreme keys of four points is attained by one point only,
  \<open>order_points\<close> returns the same four slots for every rearrangement of the points.
  Neither convexity nor distinctness of the corners is needed beyond that.
\<close>

theorem order_points_permutation_invariant:
  assumes "length pts = 4" and "mset qs = mset pts" and "uniquely_extremal pts"
  shows "order_points qs = order_points pts"
proof -
  have set_eq: "set qs = set pts" using assms(2) by (rule mset_eq_setD)
  have np: "pts \<noteq> []" using assms(1) by auto
  then have nq: "qs \<noteq> []" using set_eq by auto
  from order_points_slots_gen [OF np] obtain ptl ptr pbr pbl where
    p: "order_points pts = Inr [ptl, ptr, pbr, pbl]"
      "first_least key_sum pts ptl" "first_greatest key_diff pts ptr"
      "first_greatest key_sum pts pbr" "first_least key_diff pts pbl"
    by blast
  from order_points_slots_gen [OF nq] obtain ptl' ptr' pbr' pbl' where
    q: "order_points qs = Inr [ptl', ptr', pbr', pbl']"
      "first_least key_sum qs ptl'" "first_greatest key_diff qs ptr'"
      "first_greatest key_sum qs pbr'" "first_least key_diff qs pbl'"
    by blast
  from assms(3) have u: "unique_least key_sum pts" "unique_greatest key_sum pts"
    "unique_least key_diff pts" "unique_greatest key_diff pts"
    by (simp_all add: uniquely_extremal_def)
  have "ptl = ptl'" using first_least_unique [OF u(1) set_eq p(2) q(2)] .
  moreover have "ptr = ptr'" using first_greatest_unique [OF u(4) set_eq p(3) q(3)] .
  moreover have "pbr = pbr'" using first_greatest_unique [OF u(2) set_eq p(4) q(4)] .
  moreover have "pbl = pbl'" using first_least_unique [OF u(3) set_eq p(5) q(5)] .
  ultimately show ?thesis using p(1) q(1) by simp
qed

theorem order_points_permutation_invariant_witness:
  "length [(0, 0), (10, 0), (10, 10), (0::int, 10::int)] = 4
   \<and> mset [(10, 10), (0, 10), (0, 0), (10::int, 0::int)] = mset [(0, 0), (10, 0), (10, 10), (0, 10)]
   \<and> uniquely_extremal [(0, 0), (10, 0), (10, 10), (0, 10)]
   \<and> order_points [(10, 10), (0, 10), (0, 0), (10, 0)] = order_points [(0, 0), (10, 0), (10, 10), (0, 10)]"
proof -
  have h1: "length [(0, 0), (10, 0), (10, 10), (0::int, 10::int)] = 4" by simp
  have h2: "mset [(10, 10), (0, 10), (0, 0), (10::int, 0::int)] = mset [(0, 0), (10, 0), (10, 10), (0, 10)]"
    by (simp add: add_mset_commute)
  note h3 = uniquely_extremal_square10
  show ?thesis using h1 h2 h3 order_points_permutation_invariant [OF h1 h2 h3] by simp
qed

section \<open>Contour detection\<close>

lemma py_sorted_reverse_mset: "mset (py_sorted_reverse key xs) = mset xs"
  by (simp add: py_sorted_reverse_def)

lemma py_sorted_reverse_descending:
  "sorted_wrt (\<lambda>a b. key b \<le> key a) (py_sorted_reverse key xs)"
proof -
  have "sorted (map key (sort_key key (rev xs)))" by (rule sorted_sort_key)
  then have "sorted_wrt (\<lambda>a b. key a \<le> key b) (sort_key key (rev xs))"
    by (simp add: sorted_map)
  then show ?thesis by (simp add: py_sorted_reverse_def sorted_wrt_rev)
qed

lemma quad_search_None:
  "quad_search cv cs = None \<longleftrightarrow>
     (\<forall>c \<in> set cs. length (approxPolyDP cv c (0.02 * arcLength cv c True) True) \<noteq> 4)"
  by (induction cs) (auto simp: Let_def)

lemma quad_search_Some:
  assumes "quad_search cv cs = Some q"
  shows "\<exists>i < length cs. q = approxPolyDP cv (cs ! i) (0.02 * arcLength cv (cs ! i) True) True
    \<and> length q = 4
    \<and> (\<forall>j < i. length (approxPolyDP cv (cs ! j) (0.02 * arcLength cv (cs ! j) True) True) \<noteq> 4)"
  using assms
proof (induction cs)
  case Nil
  then show ?case by simp
next
  case (Cons c cs)
  let ?a = "\<lambda>c. approxPolyDP cv c (0.02 * arcLength cv c True) True"
  show ?case
  proof (cases "length (?a c) = 4")
    case True
    then have "q = ?a c" using Cons.prems by (simp add: Let_def)
    then show ?thesis using True by (intro exI [of _ 0]) simp
  next
    case False
    then have "quad_search cv cs = Some q" using Cons.prems by (simp add: Let_def)
    from Cons.IH [OF this] obtain i where i: "i < length cs" "q = ?a (cs ! i)" "length q = 4"
      "\<forall>j < i. length (?a (cs ! j)) \<noteq> 4" by blast
    have "\<forall>j < Suc i. length (?a ((c # cs) ! j)) \<noteq> 4"
      using False i(4) by (auto simp: nth_Cons split: nat.splits)
    then show ?thesis using i by (intro exI [of _ "Suc i"]) simp
  qed
qed

text \<open>
  Claim C3. \<open>detect_document_contour\<close> ranks the contours found in the edge image by
  area, largest first (the ranking is a rearrangement of the contours found), looks at the
  first five of the ranking at most, approximates each with the tolerance 0.02 times its
  perimeter and returns the first approximation with four vertices. It returns \<open>None\<close>
  exactly when no contour was found or none of those approximations has four vertices.
\<close>

theorem detect_document_contour_spec:
  "let cnts = findContours cv edges;
       ranked = py_sorted_reverse (contourArea cv) cnts;
       approx = (\<lambda>c. approxPolyDP cv c (0.02 * arcLength cv c True) True)
   in mset ranked = mset cnts
      \<and> sorted_wrt (\<lambda>a b. contourArea cv b \<le> contourArea cv a) ranked
      \<and> (detect_document_contour cv edges = None \<longleftrightarrow>
           cnts = [] \<or> (\<forall>c \<in> set (take 5 ranked). length (approx c) \<noteq> 4))
      \<and> (\<forall>q. detect_document_contour cv edges = Some q \<longrightarrow>
           (\<exists>i < min 5 (length ranked). q = approx (ranked ! i) \<and> length q = 4
              \<and> (\<forall>j < i. length (approx (ranked ! j)) \<noteq> 4)))"
proof -
  let ?cnts = "findContours cv edges"
  let ?ranked = "py_sorted_reverse (contourArea cv) ?cnts"
  let ?a = "\<lambda>c. approxPolyDP cv c (0.02 * arcLength cv c True) True"
  have d: "detect_document_contour cv edges =
      (if ?cnts = [] then None else quad_search cv (take 5 ?ranked))"
    by (simp add: detect_document_contour_def Let_def)
  have none: "detect_document_contour cv edges = None \<longleftrightarrow>
      ?cnts = [] \<or> (\<forall>c \<in> set (take 5 ?ranked). length (?a c) \<noteq> 4)"
    by (simp add: d quad_search_None)
  have some: "\<exists>i < min 5 (length ?ranked). q = ?a (?ranked ! i) \<and> length q = 4
      \<and> (\<forall>j < i. length (?a (?ranked ! j)) \<noteq> 4)"
    if q: "detect_document_contour cv edges = Some q" for q
  proof -
    from q have "quad_search cv (take 5 ?ranked) = Some q" by (simp add: d split: if_splits)
    from quad_search_Some [OF this] obtain i where i: "i < length (take 5 ?ranked)"
      "q = ?a (take 5 ?ranked ! i)" "length q = 4"
      "\<forall>j < i. length (?a (take 5 ?ranked ! j)) \<noteq> 4" by blast
    have i5: "i < min 5 (length ?ranked)" using i(1) by simp
    have "q = ?a (?ranked ! i)" using i(2) i5 by simp
    moreover have "\<forall>j < i. length (?a (?ranked ! j)) \<noteq> 4"
      using i(4) i5 by simp
    ultimately show ?thesis using i5 i(3) by blast
  qed
  show ?thesis
    unfolding Let_def
    using py_sorted_reverse_mset [of "contourArea cv" ?cnts]
      py_sorted_reverse_descending [of "contourArea cv" ?cnts] none some
    by blast
qed

lemma ranking_sorted:
  "py_sorted_reverse (contourArea ranking_cv) (findContours ranking_cv page)
     = [[(0, 0), (0, 2), (2, 2), (2, 0)], [(0, 0), (1, 0), (0, 1)], [(5, 5)]]"
  by (simp add: ranking_cv_def toy_cv_def py_sorted_reverse_def)

lemma ranking_detect:
  "detect_document_contour ranking_cv page = Some [(0, 0), (0, 2), (2, 2), (2, 0)]"
  by (simp add: detect_document_contour_def ranking_sorted Let_def)
     (simp add: ranking_cv_def toy_cv_def)

theorem detect_document_contour_spec_witness:
  "detect_document_contour ranking_cv page = Some [(0, 0), (0, 2), (2, 2), (2, 0)]
   \<and> py_sorted_reverse (contourArea ranking_cv) (findContours ranking_cv page)
       = [[(0, 0), (0, 2), (2, 2), (2, 0)], [(0, 0), (1, 0), (0, 1)], [(5, 5)]]
   \<and> (\<exists>i < min 5 (length (py_sorted_reverse (contourArea ranking_cv) (findContours ranking_cv page))).
         [(0, 0), (0, 2), (2, 2), (2, 0)]
          = approxPolyDP ranking_cv
              (py_sorted_reverse (contourArea ranking_cv) (findContours ranking_cv page) ! i)
              (0.02 * arcLength ranking_cv
                 (py_sorted_reverse (contourArea ranking_cv) (findContours ranking_cv page) ! i) True)
              True
         \<and> (\<forall>j < i. length (approxPolyDP ranking_cv
              (py_sorted_reverse (contourArea ranking_cv) (findContours ranking_cv page) ! j)
              (0.02 * arcLength ranking_cv
                 (py_sorted_reverse (contourArea ranking_cv) (findContours ranking_cv page) ! j) True)
              True) \<noteq> 4))"
proof -
  from detect_document_contour_spec [of ranking_cv page]
  have "\<forall>q. detect_document_contour ranking_cv page = Some q \<longrightarrow>
     (\<exists>i < min 5 (length (py_sorted_reverse (contourArea ranking_cv) (findContours ranking_cv page))).
         q = approxPolyDP ranking_cv
              (py_sorted_reverse (contourArea ranking_cv) (findContours ranking_cv page) ! i)
              (0.02 * arcLength ranking_cv
                 (py_sorted_reverse (contourArea ranking_cv) (findContours ranking_cv page) ! i) True)
              True
         \<and> length q = 4
         \<and> (\<forall>j < i. length (approxPolyDP ranking_cv
              (py_sorted_reverse (contourArea ranking_cv) (findContours ranking_cv page) ! j)
              (0.02 * arcLength ranking_cv
                 (py_sorted_reverse (contourArea ranking_cv) (findContours ranking_cv page) ! j) True)
              True) \<noteq> 4))"
    unfolding Let_def by blast
  with ranking_detect ranking_sorted show ?thesis by blast
qed

section \<open>Perspective rectification\<close>

lemma py_int_nonneg: "0 \<le> x \<Longrightarrow> py_int x = \<lfloor>x\<rfloor>"
  by (simp add: py_int_def)

lemma max_floor: "max \<lfloor>a::real\<rfloor> \<lfloor>b\<rfloor> = \<lfloor>max a b\<rfloor>"
proof (cases "a \<le> b")
  case True
  then have "\<lfloor>a\<rfloor> \<le> \<lfloor>b\<rfloor>" by (rule floor_mono)
  then show ?thesis using True by (simp add: max_def)
next
  case False
  then have "\<lfloor>b\<rfloor> \<le> \<lfloor>a\<rfloor>" by (intro floor_mono) simp
  then show ?thesis using False by (auto simp: max_def)
qed

lemma f32_nonneg: "0 \<le> x \<Longrightarrow> 0 \<le> f32 x"
  by (simp add: f32_def fround_nonneg)

lemma f32_ge_1: "1 \<le> x \<Longrightarrow> 1 \<le> f32 x"
  by (simp add: f32_def fround_ge_1)

lemma f32_minus: "f32 (- x) = - f32 x"
  by (simp add: f32_def fround_minus)

lemma np_dist_f32_nonneg: "0 \<le> np_dist_f32 a b"
  by (simp add: np_dist_f32_def f32_nonneg)

lemma f32_point_small: "small_coords p \<Longrightarrow> f32_point p = to_real p"
  by (simp add: small_coords_def f32_point_def to_real_def f32_int)

lemma euclid_edge_sq: "euclid p q = sqrt (real_of_int (edge_sq p q))"
  by (simp add: euclid_def edge_sq_def)

lemma edge_sq_nonneg: "0 \<le> edge_sq p q"
  by (simp add: edge_sq_def)

lemma small_square:
  fixes d :: int
  assumes "d\<^sup>2 < 2 ^ 24"
  shows "\<bar>d\<bar> \<le> 2 ^ 24"
proof (rule ccontr)
  assume "\<not> \<bar>d\<bar> \<le> 2 ^ 24"
  then have "1 \<le> \<bar>d\<bar>" and "2 ^ 24 < \<bar>d\<bar>" by simp_all
  then have "2 ^ 24 * 1 < \<bar>d\<bar> * \<bar>d\<bar>" by (intro mult_less_le_imp_less) simp_all
  then have "2 ^ 24 < d\<^sup>2" by (simp add: power2_eq_square abs_mult_self_eq)
  then show False using assms by simp
qed

lemma f32_int_nonneg:
  assumes "0 \<le> n" and "n < 2 ^ 24"
  shows "f32 (real_of_int n) = real_of_int n"
proof -
  have "\<bar>n\<bar> \<le> 2 ^ 24" using assms by simp
  then show ?thesis by (rule f32_int)
qed

text \<open>With exact corners and a short edge, every step but the square root is exact.\<close>

lemma np_dist_f32_short:
  assumes "small_coords p" and "small_coords q" and "edge_sq p q < 2 ^ 24"
  shows "np_dist_f32 (f32_point p) (f32_point q) = f32 (euclid p q)"
proof -
  let ?dx = "fst p - fst q" and ?dy = "snd p - snd q"
  have x0: "0 \<le> ?dx\<^sup>2" and y0: "0 \<le> ?dy\<^sup>2" by simp_all
  have sx: "?dx\<^sup>2 < 2 ^ 24" and sy: "?dy\<^sup>2 < 2 ^ 24"
    using assms(3) x0 y0 unfolding edge_sq_def by linarith+
  have dx: "f32 (real_of_int ?dx) = real_of_int ?dx" by (rule f32_int [OF small_square [OF sx]])
  have dy: "f32 (real_of_int ?dy) = real_of_int ?dy" by (rule f32_int [OF small_square [OF sy]])
  have qx: "f32 (real_of_int (?dx\<^sup>2)) = real_of_int (?dx\<^sup>2)"
    by (rule f32_int_nonneg [OF x0 sx])
  have qy: "f32 (real_of_int (?dy\<^sup>2)) = real_of_int (?dy\<^sup>2)"
    by (rule f32_int_nonneg [OF y0 sy])
  have s: "f32 (real_of_int (edge_sq p q)) = real_of_int (edge_sq p q)"
    by (rule f32_int_nonneg [OF edge_sq_nonneg assms(3)])
  have a: "fst (f32_point p) - fst (f32_point q) = real_of_int ?dx"
    and b: "snd (f32_point p) - snd (f32_point q) = real_of_int ?dy"
    using assms(1,2) by (simp_all add: f32_point_small to_real_def)
  have "np_dist_f32 (f32_point p) (f32_point q)
      = f32 (sqrt (f32 (f32 ((f32 (real_of_int ?dx))\<^sup>2) + f32 ((f32 (real_of_int ?dy))\<^sup>2))))"
    unfolding np_dist_f32_def a b ..
  also have "\<dots> = f32 (sqrt (f32 (f32 (real_of_int (?dx\<^sup>2)) + f32 (real_of_int (?dy\<^sup>2)))))"
    unfolding dx dy by simp
  also have "\<dots> = f32 (sqrt (f32 (real_of_int (edge_sq p q))))"
    unfolding qx qy by (simp add: edge_sq_def)
  also have "\<dots> = f32 (sqrt (real_of_int (edge_sq p q)))" unfolding s ..
  finally show ?thesis by (simp add: euclid_edge_sq)
qed

lemma py_int_np_dist_f32_short:
  assumes "small_coords p" and "small_coords q" and "edge_sq p q < 2 ^ 24"
  shows "py_int (np_dist_f32 (f32_point p) (f32_point q)) = \<lfloor>euclid p q\<rfloor>"
proof -
  have "py_int (np_dist_f32 (f32_point p) (f32_point q))
      = \<lfloor>np_dist_f32 (f32_point p) (f32_point q)\<rfloor>"
    by (rule py_int_nonneg [OF np_dist_f32_nonneg])
  also have "\<dots> = \<lfloor>f32 (sqrt (real_of_int (edge_sq p q)))\<rfloor>"
    by (simp add: np_dist_f32_short [OF assms] euclid_edge_sq)
  also have "\<dots> = \<lfloor>sqrt (real_of_int (edge_sq p q))\<rfloor>"
    by (rule f32_sqrt_floor [OF edge_sq_nonneg assms(3)])
  finally show ?thesis by (simp add: euclid_edge_sq)
qed

text \<open>Two distinct corners with exact coordinates are at float32 distance 1 or more.\<close>

lemma f32_int_sq_ge_1:
  assumes "d \<noteq> (0::int)"
  shows "1 \<le> f32 ((f32 (real_of_int d))\<^sup>2)"
proof -
  have "1 \<le> \<bar>f32 (real_of_int d)\<bar>"
  proof (cases "0 < d")
    case True
    then have "1 \<le> f32 (real_of_int d)" by (intro f32_ge_1) simp
    then show ?thesis by simp
  next
    case False
    then have "1 \<le> real_of_int (- d)" using assms by simp
    then have "1 \<le> f32 (real_of_int (- d))" by (rule f32_ge_1)
    then have "1 \<le> - f32 (real_of_int d)" by (simp add: f32_minus)
    then show ?thesis by simp
  qed
  then have "1\<^sup>2 \<le> \<bar>f32 (real_of_int d)\<bar>\<^sup>2" by (intro power_mono) simp_all
  then have "1 \<le> (f32 (real_of_int d))\<^sup>2" by simp
  then show ?thesis by (rule f32_ge_1)
qed

lemma np_dist_f32_ge_1:
  assumes "small_coords p" and "small_coords q" and "p \<noteq> q"
  shows "1 \<le> np_dist_f32 (f32_point p) (f32_point q)"
proof -
  let ?dx = "fst p - fst q" and ?dy = "snd p - snd q"
  have a: "fst (f32_point p) - fst (f32_point q) = real_of_int ?dx"
    and b: "snd (f32_point p) - snd (f32_point q) = real_of_int ?dy"
    using assms(1,2) by (simp_all add: f32_point_small to_real_def)
  let ?qx = "f32 ((f32 (real_of_int ?dx))\<^sup>2)" and ?qy = "f32 ((f32 (real_of_int ?dy))\<^sup>2)"
  have qx0: "0 \<le> ?qx" and qy0: "0 \<le> ?qy" by (simp_all add: f32_nonneg)
  have "?dx \<noteq> 0 \<or> ?dy \<noteq> 0" using assms(3) by (auto simp: prod_eq_iff)
  then have "1 \<le> ?qx \<or> 1 \<le> ?qy" using f32_int_sq_ge_1 by blast
  then have "1 \<le> ?qx + ?qy" using qx0 qy0 by linarith
  then have "1 \<le> f32 (?qx + ?qy)" by (rule f32_ge_1)
  then have "1 \<le> sqrt (f32 (?qx + ?qy))" by simp
  then have "1 \<le> f32 (sqrt (f32 (?qx + ?qy)))" by (rule f32_ge_1)
  then show ?thesis unfolding np_dist_f32_def a b .
qed

lemma perspective_plan_f32:
  assumes "length contour = 4" and "order_points contour = Inr [ptl, ptr, pbr, pbl]"
  shows "perspective_plan contour =
    Inr ([ptl, ptr, pbr, pbl],
         [(0, 0),
          (max (py_int (np_dist_f32 (f32_point pbr) (f32_point pbl)))
               (py_int (np_dist_f32 (f32_point ptr) (f32_point ptl))) - 1, 0),
          (max (py_int (np_dist_f32 (f32_point pbr) (f32_point pbl)))
               (py_int (np_dist_f32 (f32_point ptr) (f32_point ptl))) - 1,
           max (py_int (np_dist_f32 (f32_point ptr) (f32_point pbr)))
               (py_int (np_dist_f32 (f32_point ptl) (f32_point pbl))) - 1),
          (0, max (py_int (np_dist_f32 (f32_point ptr) (f32_point pbr)))
                  (py_int (np_dist_f32 (f32_point ptl) (f32_point pbl))) - 1)],
         (max (py_int (np_dist_f32 (f32_point pbr) (f32_point pbl)))
              (py_int (np_dist_f32 (f32_point ptr) (f32_point ptl))),
          max (py_int (np_dist_f32 (f32_point ptr) (f32_point pbr)))
              (py_int (np_dist_f32 (f32_point ptl) (f32_point pbl)))))"
  using assms by (simp add: perspective_plan_def Let_def)

lemma perspective_plan_short:
  assumes "length contour = 4" and "order_points contour = Inr [ptl, ptr, pbr, pbl]"
    and "small_coords ptl" and "small_coords ptr" and "small_coords pbr" and "small_coords pbl"
    and "edge_sq pbr pbl < 2 ^ 24" and "edge_sq ptr ptl < 2 ^ 24"
    and "edge_sq ptr pbr < 2 ^ 24" and "edge_sq ptl pbl < 2 ^ 24"
  shows "perspective_plan contour =
    Inr ([ptl, ptr, pbr, pbl],
         [(0, 0),
          (\<lfloor>max (euclid pbr pbl) (euclid ptr ptl)\<rfloor> - 1, 0),
          (\<lfloor>max (euclid pbr pbl) (euclid ptr ptl)\<rfloor> - 1, \<lfloor>max (euclid ptr pbr) (euclid ptl pbl)\<rfloor> - 1),
          (0, \<lfloor>max (euclid ptr pbr) (euclid ptl pbl)\<rfloor> - 1)],
         (\<lfloor>max (euclid pbr pbl) (euclid ptr ptl)\<rfloor>, \<lfloor>max (euclid ptr pbr) (euclid ptl pbl)\<rfloor>))"
proof -
  have w: "max (py_int (np_dist_f32 (f32_point pbr) (f32_point pbl)))
               (py_int (np_dist_f32 (f32_point ptr) (f32_point ptl)))
      = \<lfloor>max (euclid pbr pbl) (euclid ptr ptl)\<rfloor>"
    by (simp only: py_int_np_dist_f32_short [OF assms(5,6,7)]
        py_int_np_dist_f32_short [OF assms(4,3,8)] max_floor)
  have h: "max (py_int (np_dist_f32 (f32_point ptr) (f32_point pbr)))
               (py_int (np_dist_f32 (f32_point ptl) (f32_point pbl)))
      = \<lfloor>max (euclid ptr pbr) (euclid ptl pbl)\<rfloor>"
    by (simp only: py_int_np_dist_f32_short [OF assms(4,5,9)]
        py_int_np_dist_f32_short [OF assms(3,6,10)] max_floor)
  show ?thesis using perspective_plan_f32 [OF assms(1,2)] by (simp only: w h)
qed

lemma order_points_members:
  assumes "order_points pts = Inr [a, b, c, d]" and "pts \<noteq> []"
  shows "a \<in> set pts" "b \<in> set pts" "c \<in> set pts" "d \<in> set pts"
proof -
  from order_points_slots_gen [OF assms(2)] obtain a' b' c' d' where
    r: "order_points pts = Inr [a', b', c', d']" and
    f: "first_least key_sum pts a'" "first_greatest key_diff pts b'"
      "first_greatest key_sum pts c'" "first_least key_diff pts d'" by blast
  from r assms(1) have e: "a = a'" "b = b'" "c = c'" "d = d'" by simp_all
  show "a \<in> set pts" using first_least_least [OF f(1)] e by simp
  show "b \<in> set pts" using first_greatest_greatest [OF f(2)] e by simp
  show "c \<in> set pts" using first_greatest_greatest [OF f(3)] e by simp
  show "d \<in> set pts" using first_least_least [OF f(4)] e by simp
qed





lemma sqrt_100: "sqrt 100 = 10"
  using real_sqrt_abs [of 10] by simp


lemma order_points_square:
  "order_points [(0, 0), (10, 0), (10, 10), (0, 10)] = Inr [(0, 0), (10, 0), (10, 10), (0, 10)]"
  by (simp add: order_points_def np_sum_axis1_def np_diff_axis1_def np_argmin_def np_argmax_def)

lemma small_square_contour: "list_all small_coords [(0, 0), (10, 0), (10, 10), (0, 10)]"
  by (simp add: small_coords_def)












lemma order_points_dart:
  "order_points [(0, 0), (2, 4), (0, 10), (1, 5)] = Inr [(0, 0), (0, 0), (0, 10), (0, 10)]"
  by (simp add: order_points_def np_sum_axis1_def np_diff_axis1_def np_argmin_def np_argmax_def)

lemma order_points_collapsed:
  "order_points [(3, 3), (3, 3), (3, 3), (3, 3)] = Inr [(3, 3), (3, 3), (3, 3), (3, 3)]"
  by (simp add: order_points_def np_sum_axis1_def np_diff_axis1_def np_argmin_def np_argmax_def)

text \<open>
  The output size can be zero: on the concave quadrilateral (0,0), (2,4), (0,10), (1,5)
  both left slots receive (0,0) and both right slots (0,10), so the computed width is 0;
  on four coincident points width and height are both 0.
\<close>

theorem perspective_plan_zero_width:
  "perspective_plan [(0, 0), (2, 4), (0, 10), (1, 5)] =
     Inr ([(0, 0), (0, 0), (0, 10), (0, 10)], [(0, 0), (- 1, 0), (- 1, 9), (0, 9)], (0, 10))
   \<and> perspective_plan [(3, 3), (3, 3), (3, 3), (3, 3)] =
     Inr ([(3, 3), (3, 3), (3, 3), (3, 3)], [(0, 0), (- 1, 0), (- 1, - 1), (0, - 1)], (0, 0))"
proof (intro conjI)
  have l1: "length [(0, 0), (2, 4), (0, 10), (1::int, 5::int)] = 4" by simp
  have "perspective_plan [(0, 0), (2, 4), (0, 10), (1, 5)] =
    Inr ([(0, 0), (0, 0), (0, 10), (0, 10)],
         [(0, 0),
          (\<lfloor>max (euclid (0, 10) (0, 10)) (euclid (0, 0) (0, 0))\<rfloor> - 1, 0),
          (\<lfloor>max (euclid (0, 10) (0, 10)) (euclid (0, 0) (0, 0))\<rfloor> - 1,
           \<lfloor>max (euclid (0, 0) (0, 10)) (euclid (0, 0) (0, 10))\<rfloor> - 1),
          (0, \<lfloor>max (euclid (0, 0) (0, 10)) (euclid (0, 0) (0, 10))\<rfloor> - 1)],
         (\<lfloor>max (euclid (0, 10) (0, 10)) (euclid (0, 0) (0, 0))\<rfloor>,
          \<lfloor>max (euclid (0, 0) (0, 10)) (euclid (0, 0) (0, 10))\<rfloor>))"
    by (rule perspective_plan_short [OF l1 order_points_dart])
       (simp_all add: small_coords_def edge_sq_def)
  then show "perspective_plan [(0, 0), (2, 4), (0, 10), (1, 5)] =
     Inr ([(0, 0), (0, 0), (0, 10), (0, 10)], [(0, 0), (- 1, 0), (- 1, 9), (0, 9)], (0, 10))"
    by (simp add: euclid_def sqrt_100)
  have l2: "length [(3, 3), (3, 3), (3, 3), (3::int, 3::int)] = 4" by simp
  have "perspective_plan [(3, 3), (3, 3), (3, 3), (3, 3)] =
    Inr ([(3, 3), (3, 3), (3, 3), (3, 3)],
         [(0, 0),
          (\<lfloor>max (euclid (3, 3) (3, 3)) (euclid (3, 3) (3, 3))\<rfloor> - 1, 0),
          (\<lfloor>max (euclid (3, 3) (3, 3)) (euclid (3, 3) (3, 3))\<rfloor> - 1,
           \<lfloor>max (euclid (3, 3) (3, 3)) (euclid (3, 3) (3, 3))\<rfloor> - 1),
          (0, \<lfloor>max (euclid (3, 3) (3, 3)) (euclid (3, 3) (3, 3))\<rfloor> - 1)],
         (\<lfloor>max (euclid (3, 3) (3, 3)) (euclid (3, 3) (3, 3))\<rfloor>,
          \<lfloor>max (euclid (3, 3) (3, 3)) (euclid (3, 3) (3, 3))\<rfloor>))"
    by (rule perspective_plan_short [OF l2 order_points_collapsed])
       (simp_all add: small_coords_def edge_sq_def)
  then show "perspective_plan [(3, 3), (3, 3), (3, 3), (3, 3)] =
     Inr ([(3, 3), (3, 3), (3, 3), (3, 3)], [(0, 0), (- 1, 0), (- 1, - 1), (0, - 1)], (0, 0))"
    by (simp add: euclid_def)
qed

text \<open>
  Claim C8, as the code has it. For a contour of four integer points with coordinates of
  magnitude at most \<open>2 ^ 24\<close> whose ordered corners are not collapsed (BR differs from BL or
  TR from TL, and TR differs from BR or TL from BL) the computed width and height are both
  at least 1.
\<close>

theorem perspective_plan_size_positive:
  assumes "length contour = 4" and "order_points contour = Inr [ptl, ptr, pbr, pbl]"
    and "list_all small_coords contour"
    and "pbr \<noteq> pbl \<or> ptr \<noteq> ptl" and "ptr \<noteq> pbr \<or> ptl \<noteq> pbl"
  shows "\<exists>rect dst w h. perspective_plan contour = Inr (rect, dst, (w, h)) \<and> 1 \<le> w \<and> 1 \<le> h"
proof -
  have ne: "contour \<noteq> []" using assms(1) by auto
  have sm: "small_coords ptl" "small_coords ptr" "small_coords pbr" "small_coords pbl"
    using order_points_members [OF assms(2) ne] assms(3) by (simp_all add: list_all_iff)
  have fl: "1 \<le> py_int (np_dist_f32 (f32_point p) (f32_point q))"
    if "small_coords p" "small_coords q" "p \<noteq> q" for p q
  proof -
    have "1 \<le> np_dist_f32 (f32_point p) (f32_point q)" using that by (rule np_dist_f32_ge_1)
    then have "1 \<le> \<lfloor>np_dist_f32 (f32_point p) (f32_point q)\<rfloor>" by (simp add: le_floor_iff)
    then show ?thesis by (simp add: py_int_nonneg [OF np_dist_f32_nonneg])
  qed
  have w: "1 \<le> max (py_int (np_dist_f32 (f32_point pbr) (f32_point pbl)))
                     (py_int (np_dist_f32 (f32_point ptr) (f32_point ptl)))"
    using assms(4) fl [OF sm(3,4)] fl [OF sm(2,1)] by (auto simp: le_max_iff_disj)
  have h: "1 \<le> max (py_int (np_dist_f32 (f32_point ptr) (f32_point pbr)))
                     (py_int (np_dist_f32 (f32_point ptl) (f32_point pbl)))"
    using assms(5) fl [OF sm(2,3)] fl [OF sm(1,4)] by (auto simp: le_max_iff_disj)
  show ?thesis using perspective_plan_f32 [OF assms(1,2)] w h by blast
qed

theorem perspective_plan_size_positive_witness:
  "length [(0, 0), (10, 0), (10, 10), (0::int, 10::int)] = 4
   \<and> order_points [(0, 0), (10, 0), (10, 10), (0, 10)] = Inr [(0, 0), (10, 0), (10, 10), (0, 10)]
   \<and> list_all small_coords [(0, 0), (10, 0), (10, 10), (0, 10)]
   \<and> (\<exists>rect dst w h. perspective_plan [(0, 0), (10, 0), (10, 10), (0, 10)] = Inr (rect, dst, (w, h))
         \<and> 1 \<le> w \<and> 1 \<le> h)"
proof -
  have h1: "length [(0, 0), (10, 0), (10, 10), (0::int, 10::int)] = 4" by simp
  note h2 = order_points_square
  note h3 = small_square_contour
  have h4: "((10, 10) :: point) \<noteq> (0, 10) \<or> ((10, 0) :: point) \<noteq> (0, 0)" by simp
  have h5: "((10, 0) :: point) \<noteq> (10, 10) \<or> ((0, 0) :: point) \<noteq> (0, 10)" by simp
  from perspective_plan_size_positive [OF h1 h2 h3 h4 h5] show ?thesis using h1 h2 h3 by blast
qed

section \<open>Sharpness selection\<close>

lemma f64_nonneg: "0 \<le> x \<Longrightarrow> 0 \<le> f64 x"
  by (simp add: f64_def fround_nonneg)

lemma f64_int: "\<bar>n\<bar> \<le> 2 ^ 53 \<Longrightarrow> f64 (of_int n) = of_int n"
  by (simp add: f64_def fround_int)

lemma eval_sum_nonneg:
  assumes "\<forall>x \<in> set xs. 0 \<le> x"
  shows "0 \<le> eval_sum s xs"
  using assms by (induction s) (simp_all add: f64_nonneg)

lemma np_sum_nonneg:
  assumes "\<forall>x \<in> set xs. 0 \<le> x"
  shows "0 \<le> np_sum cv xs"
  using eval_sum_nonneg [OF assms] by (simp add: np_sum_def)

lemma np_var_nonneg: "0 \<le> np_var cv xs"
  unfolding np_var_def Let_def
  by (intro f64_nonneg divide_nonneg_nonneg np_sum_nonneg) (auto intro: f64_nonneg)

lemma sharpness_nonneg: "0 \<le> sharpness cv frame"
  by (simp add: sharpness_def laplacian_variance_def np_var_nonneg split: sum.splits)

lemma valid_bgr_gray:
  assumes "valid_bgr frame"
  shows "\<exists>gray. cvtColor_BGR2GRAY cv frame = Inr gray \<and> height gray = height frame
    \<and> width gray = width frame \<and> \<not> ndim3 gray"
  using assms by (cases frame) (auto simp: valid_bgr_def cvtColor_BGR2GRAY_def)

lemma sharpest_loop_step:
  assumes "valid_bgr frame"
  shows "sharpest_loop cv (frame # rest) mv best =
    (if sharpness cv frame > mv then sharpest_loop cv rest (sharpness cv frame) frame
     else sharpest_loop cv rest mv best)"
proof -
  from valid_bgr_gray [OF assms] obtain gray where "cvtColor_BGR2GRAY cv frame = Inr gray"
    by blast
  then show ?thesis by (simp add: sharpness_def Let_def)
qed

lemma sharpest_loop_first_max:
  assumes "list_all valid_bgr xs" and "whole \<noteq> []" and "pre @ xs = whole"
    and "\<forall>j < length pre. sharpness cv (pre ! j) \<le> mv"
    and "(mv = 0 \<and> best = whole ! 0)
       \<or> (\<exists>bi < length pre. best = pre ! bi \<and> sharpness cv best = mv
            \<and> (\<forall>j < bi. sharpness cv (pre ! j) < mv))"
  shows "\<exists>i < length whole. sharpest_loop cv xs mv best = Inr (whole ! i)
    \<and> (\<forall>j < length whole. sharpness cv (whole ! j) \<le> sharpness cv (whole ! i))
    \<and> (\<forall>j < i. sharpness cv (whole ! j) < sharpness cv (whole ! i))"
  using assms
proof (induction xs arbitrary: pre mv best)
  case Nil
  then have pw: "pre = whole" by simp
  from Nil.prems(5) show ?case
  proof
    assume a: "mv = 0 \<and> best = whole ! 0"
    have "\<forall>j < length whole. sharpness cv (whole ! j) \<le> sharpness cv (whole ! 0)"
    proof (intro allI impI)
      fix j assume "j < length whole"
      then have "sharpness cv (whole ! j) \<le> 0" using Nil.prems(4) pw a by simp
      also have "0 \<le> sharpness cv (whole ! 0)" by (rule sharpness_nonneg)
      finally show "sharpness cv (whole ! j) \<le> sharpness cv (whole ! 0)" .
    qed
    then show ?thesis using a Nil.prems(2) by (intro exI [of _ 0]) simp
  next
    assume "\<exists>bi < length pre. best = pre ! bi \<and> sharpness cv best = mv
            \<and> (\<forall>j < bi. sharpness cv (pre ! j) < mv)"
    then obtain bi where bi: "bi < length pre" "best = pre ! bi" "sharpness cv best = mv"
      "\<forall>j < bi. sharpness cv (pre ! j) < mv" by blast
    then show ?thesis using Nil.prems(4) pw by (intro exI [of _ bi]) simp
  qed
next
  case (Cons x xs)
  have vx: "valid_bgr x" and vxs: "list_all valid_bgr xs" using Cons.prems(1) by simp_all
  have app: "(pre @ [x]) @ xs = whole" using Cons.prems(3) by simp
  note step = sharpest_loop_step [OF vx, of cv xs mv best]
  show ?case
  proof (cases "sharpness cv x > mv")
    case True
    have le: "\<forall>j < length (pre @ [x]). sharpness cv ((pre @ [x]) ! j) \<le> sharpness cv x"
    proof (intro allI impI)
      fix j assume "j < length (pre @ [x])"
      then consider "j < length pre" | "j = length pre" by fastforce
      then show "sharpness cv ((pre @ [x]) ! j) \<le> sharpness cv x"
      proof cases
        case 1
        then have "sharpness cv (pre ! j) \<le> mv" using Cons.prems(4) by simp
        then show ?thesis using True 1 by (simp add: nth_append)
      next
        case 2
        then show ?thesis by simp
      qed
    qed
    have before: "\<forall>j < length pre. sharpness cv ((pre @ [x]) ! j) < sharpness cv x"
    proof (intro allI impI)
      fix j assume j: "j < length pre"
      then have "sharpness cv (pre ! j) \<le> mv" using Cons.prems(4) by simp
      then show "sharpness cv ((pre @ [x]) ! j) < sharpness cv x"
        using True j by (simp add: nth_append)
    qed
    have inv: "(sharpness cv x = 0 \<and> x = whole ! 0)
       \<or> (\<exists>bi < length (pre @ [x]). x = (pre @ [x]) ! bi \<and> sharpness cv x = sharpness cv x
            \<and> (\<forall>j < bi. sharpness cv ((pre @ [x]) ! j) < sharpness cv x))"
      using before by (intro disjI2 exI [of _ "length pre"]) simp
    from Cons.IH [OF vxs Cons.prems(2) app le inv] step True show ?thesis by simp
  next
    case False
    have le: "\<forall>j < length (pre @ [x]). sharpness cv ((pre @ [x]) ! j) \<le> mv"
      using False Cons.prems(4) by (auto simp: nth_append less_Suc_eq)
    have inv: "(mv = 0 \<and> best = whole ! 0)
       \<or> (\<exists>bi < length (pre @ [x]). best = (pre @ [x]) ! bi \<and> sharpness cv best = mv
            \<and> (\<forall>j < bi. sharpness cv ((pre @ [x]) ! j) < mv))"
    proof (rule disjE [OF Cons.prems(5)])
      assume "mv = 0 \<and> best = whole ! 0"
      then show ?thesis by simp
    next
      assume "\<exists>bi < length pre. best = pre ! bi \<and> sharpness cv best = mv
            \<and> (\<forall>j < bi. sharpness cv (pre ! j) < mv)"
      then obtain bi where bi: "bi < length pre" "best = pre ! bi" "sharpness cv best = mv"
        "\<forall>j < bi. sharpness cv (pre ! j) < mv" by blast
      have "\<forall>j < bi. sharpness cv ((pre @ [x]) ! j) < mv"
        using bi(1,4) by (simp add: nth_append)
      then show ?thesis using bi by (intro disjI2 exI [of _ bi]) (simp add: nth_append)
    qed
    from Cons.IH [OF vxs Cons.prems(2) app le inv] step False show ?thesis by simp
  qed
qed

text \<open>
  Claim C6. For a non-empty sequence of frames that the luminance conversion accepts,
  \<open>_select_sharpest_frame\<close> returns a frame of the sequence whose Laplacian variance is the
  greatest of the sequence, and every earlier frame has a strictly smaller one: the first
  frame with the maximal variance is returned. The variance of a frame is the float64
  number that \<open>.var()\<close> computes (\<open>sharpness\<close>), which is what the code compares.
\<close>

theorem select_sharpest_frame_first_max:
  assumes "frames \<noteq> []" and "list_all valid_bgr frames"
  shows "\<exists>i < length frames. select_sharpest_frame cv frames = Inr (frames ! i)
    \<and> (\<forall>j < length frames. sharpness cv (frames ! j) \<le> sharpness cv (frames ! i))
    \<and> (\<forall>j < i. sharpness cv (frames ! j) < sharpness cv (frames ! i))"
proof -
  have sel: "select_sharpest_frame cv frames = sharpest_loop cv frames 0 (frames ! 0)"
    using assms(1) by (cases frames) (simp_all add: select_sharpest_frame_def)
  have "\<exists>i < length frames. sharpest_loop cv frames 0 (frames ! 0) = Inr (frames ! i)
    \<and> (\<forall>j < length frames. sharpness cv (frames ! j) \<le> sharpness cv (frames ! i))
    \<and> (\<forall>j < i. sharpness cv (frames ! j) < sharpness cv (frames ! i))"
    by (rule sharpest_loop_first_max [where pre = "[]"]) (use assms in simp_all)
  then show ?thesis by (simp add: sel)
qed

lemma f64_values:
  "f64 0 = 0" "f64 1 = 1" "f64 2 = 2" "f64 5 = 5" "f64 10 = 10" "f64 (- 1) = - 1"
  using f64_int [of 0] f64_int [of 1] f64_int [of 2] f64_int [of 5] f64_int [of 10]
    f64_int [of "- 1"] by simp_all

lemma sharpness_flat: "sharpness toy_cv flat_frame = 0"
  by (simp add: sharpness_def cvtColor_BGR2GRAY_def flat_frame_def laplacian_variance_def
      np_var_def np_sum_def toy_cv_def upt_rec f64_values)

lemma sharpness_sharp: "sharpness toy_cv sharp_frame = 1"
  by (simp add: sharpness_def cvtColor_BGR2GRAY_def sharp_frame_def laplacian_variance_def
      np_var_def np_sum_def toy_cv_def upt_rec f64_values)

lemma valid_frames: "valid_bgr flat_frame" "valid_bgr sharp_frame"
  by (simp_all add: valid_bgr_def flat_frame_def sharp_frame_def)

lemma select_sharpest_example:
  "select_sharpest_frame toy_cv [flat_frame, sharp_frame, sharp_frame] = Inr sharp_frame"
  by (simp add: select_sharpest_frame_def sharpest_loop_step valid_frames
      sharpness_flat sharpness_sharp del: sharpest_loop.simps(2))

theorem select_sharpest_frame_first_max_witness:
  "[flat_frame, sharp_frame, sharp_frame] \<noteq> []
   \<and> list_all valid_bgr [flat_frame, sharp_frame, sharp_frame]
   \<and> select_sharpest_frame toy_cv [flat_frame, sharp_frame, sharp_frame] = Inr sharp_frame
   \<and> sharpness toy_cv flat_frame = 0 \<and> sharpness toy_cv sharp_frame = 1
   \<and> (\<exists>i < length [flat_frame, sharp_frame, sharp_frame].
         select_sharpest_frame toy_cv [flat_frame, sharp_frame, sharp_frame]
           = Inr ([flat_frame, sharp_frame, sharp_frame] ! i)
         \<and> (\<forall>j < length [flat_frame, sharp_frame, sharp_frame].
               sharpness toy_cv ([flat_frame, sharp_frame, sharp_frame] ! j)
                 \<le> sharpness toy_cv ([flat_frame, sharp_frame, sharp_frame] ! i))
         \<and> (\<forall>j < i. sharpness toy_cv ([flat_frame, sharp_frame, sharp_frame] ! j)
                 < sharpness toy_cv ([flat_frame, sharp_frame, sharp_frame] ! i)))"
proof -
  have h1: "[flat_frame, sharp_frame, sharp_frame] \<noteq> []" by simp
  have h2: "list_all valid_bgr [flat_frame, sharp_frame, sharp_frame]"
    by (simp add: valid_frames)
  from select_sharpest_frame_first_max [OF h1 h2, of toy_cv]
  show ?thesis using h1 h2 select_sharpest_example sharpness_flat sharpness_sharp by blast
qed

section \<open>Burst capture\<close>

text \<open>
  Claim C10. When an active handler with a camera reads no frame in its burst of five,
  \<open>capture_high_quality\<close> returns \<open>None\<close>; the selector itself raises \<open>IndexError\<close> on the
  empty sequence.
\<close>

theorem empty_burst_no_frame:
  assumes "camera h = Some cam" and "is_active h" and "fst (read_burst 5 cam) = []"
  shows "fst (capture_high_quality cv h) = None
    \<and> select_sharpest_frame cv [] = Inl IndexError"
proof -
  obtain frames cam' where rb: "read_burst 5 cam = (frames, cam')"
    by (cases "read_burst 5 cam")
  then have "frames = []" using assms(3) by simp
  then have "fst (capture_high_quality cv h) = None"
    using assms(1,2) rb by (simp add: capture_high_quality_def)
  then show ?thesis by (simp add: select_sharpest_frame_def)
qed

lemma read_burst_failing: "read_burst 5 [None, None, None, None, None] = ([], [])"
  by (simp add: eval_nat_numeral)

theorem empty_burst_no_frame_witness:
  "camera failing_handler = Some [None, None, None, None, None]
   \<and> is_active failing_handler
   \<and> fst (read_burst 5 [None, None, None, None, None]) = []
   \<and> current_frame failing_handler = Some page
   \<and> fst (capture_high_quality toy_cv failing_handler) = None
   \<and> select_sharpest_frame toy_cv [] = Inl IndexError"
proof -
  have h1: "camera failing_handler = Some [None, None, None, None, None]"
    by (simp add: failing_handler_def)
  have h2: "is_active failing_handler" by (simp add: failing_handler_def)
  have h3: "fst (read_burst 5 [None, None, None, None, None]) = []"
    by (simp add: read_burst_failing)
  from empty_burst_no_frame [OF h1 h2 h3, of toy_cv]
  show ?thesis using h1 h2 h3 by (simp add: failing_handler_def)
qed

section \<open>Enhancement\<close>

lemma median9_member:
  assumes "length vs = 9"
  shows "median9 vs \<in> set vs"
proof -
  have "4 < length (sort vs)" using assms by simp
  then have "sort vs ! 4 \<in> set (sort vs)" by (rule nth_mem)
  then show ?thesis by (simp add: median9_def)
qed

lemma length_window3: "length (window3 h w f y x) = 9"
  by (simp add: window3_def)

lemma window3_values:
  assumes "\<forall>y x. f y x = 0 \<or> f y x = 255"
  shows "\<forall>v \<in> set (window3 h w f y x). v = 0 \<or> v = 255"
  using assms by (auto simp: window3_def)

lemma median9_window3_binary:
  assumes "\<forall>y x. f y x = 0 \<or> f y x = 255"
  shows "median9 (window3 h w f y x) = 0 \<or> median9 (window3 h w f y x) = 255"
  using median9_member [OF length_window3, of h w f y x] window3_values [OF assms, of h w y x]
  by blast

lemma adaptiveThreshold_binary:
  assumes "adaptiveThreshold cv src 255 blockSize C = Inr t"
  shows "\<exists>F. t = Gray (height src) (width src) F \<and> (\<forall>y x. F y x = 0 \<or> F y x = 255)"
  using assms by (auto simp: adaptiveThreshold_def split: if_splits)

lemma medianBlur3_binary:
  assumes "medianBlur3 (Gray h w F) = Inr d" and "\<forall>y x. F y x = 0 \<or> F y x = 255"
  shows "\<exists>G. d = Gray h w G \<and> (\<forall>y x. G y x = 0 \<or> G y x = 255)"
proof -
  from assms(1) have "d = Gray h w (\<lambda>y x. median9 (window3 h w F y x))"
    by (simp add: medianBlur3_def split: if_splits)
  then show ?thesis using median9_window3_binary [OF assms(2)] by blast
qed

lemma enhance_image_result:
  assumes "enhance_image cv img = Inr out"
  shows "\<exists>G. (\<forall>y x. G y x = 0 \<or> G y x = 255)
    \<and> out = (if ndim3 img then Color (height img) (width img) 3 (\<lambda>y x c. G y x)
             else Gray (height img) (width img) G)"
proof -
  from assms obtain gray t d where
    g: "(if ndim3 img then cvtColor_BGR2GRAY cv img else Inr img) = Inr gray"
    and t: "adaptiveThreshold cv gray 255 11 2 = Inr t"
    and d: "medianBlur3 t = Inr d"
    and o: "(if ndim3 img then cvtColor_GRAY2BGR d else Inr d) = Inr out"
    by (auto simp: enhance_image_def split: sum.splits)
  have dims: "height gray = height img \<and> width gray = width img"
    using g by (cases img) (auto simp: cvtColor_BGR2GRAY_def split: if_splits)
  from adaptiveThreshold_binary [OF t] obtain F where
    F: "t = Gray (height gray) (width gray) F" "\<forall>y x. F y x = 0 \<or> F y x = 255" by blast
  from medianBlur3_binary [OF d [unfolded F(1)] F(2)] obtain G where
    G: "d = Gray (height gray) (width gray) G" "\<forall>y x. G y x = 0 \<or> G y x = 255" by blast
  show ?thesis
  proof (cases "ndim3 img")
    case True
    then have "out = Color (height img) (width img) 3 (\<lambda>y x c. G y x)"
      using o G(1) dims by (auto simp: cvtColor_GRAY2BGR_def split: if_splits)
    then show ?thesis using True G(2) by auto
  next
    case False
    then have "out = Gray (height img) (width img) G" using o G(1) dims by simp
    then show ?thesis using False G(2) by auto
  qed
qed

lemma enhance_image_binary:
  assumes "enhance_image cv img = Inr out"
  shows "binary_valued out" and "ndim3 img \<Longrightarrow> equal_channels3 out"
    and "height out = height img" and "width out = width img"
proof -
  from enhance_image_result [OF assms] obtain G where
    G: "\<forall>y x. G y x = 0 \<or> G y x = 255"
    "out = (if ndim3 img then Color (height img) (width img) 3 (\<lambda>y x c. G y x)
             else Gray (height img) (width img) G)" by blast
  show "binary_valued out" using G by (simp add: binary_valued_def)
  show "ndim3 img \<Longrightarrow> equal_channels3 out" using G by (simp add: equal_channels3_def)
  show "height out = height img" using G by simp
  show "width out = width img" using G by simp
qed

lemma enhance_image_valid_bgr:
  assumes "valid_bgr img"
  shows "enhance_image cv img = Inr (binarize_bgr cv img)"
  using assms
  by (cases img)
     (auto simp: valid_bgr_def enhance_image_def cvtColor_BGR2GRAY_def adaptiveThreshold_def
       medianBlur3_def cvtColor_GRAY2BGR_def binarize_bgr_def Let_def)

lemma enhance_image_gray:
  assumes "\<not> ndim3 img" and "0 < height img" and "0 < width img"
  shows "\<exists>out. enhance_image cv img = Inr out"
  using assms
  by (cases img)
     (auto simp: enhance_image_def adaptiveThreshold_def medianBlur3_def)

lemma process_document_result:
  assumes "process_document cv img = Some out"
  shows "\<exists>src. enhance_image cv src = Inr out"
  using assms by (auto simp: process_document_def split: sum.splits option.splits)

text \<open>
  Claim C9. Whatever \<open>enhance_image\<close> returns has only the values 0 and 255, and for a
  three-dimensional input it is a three-channel buffer whose channels agree at every
  pixel; the same values are all that \<open>process_document\<close> can return, on either path. On a
  well-formed colour buffer and on a non-empty two-dimensional buffer \<open>enhance_image\<close>
  does return.
\<close>

theorem enhance_image_binary_valued:
  "(\<forall>out. enhance_image cv img = Inr out \<longrightarrow>
       binary_valued out \<and> (ndim3 img \<longrightarrow> equal_channels3 out))
   \<and> (\<forall>out. process_document cv img = Some out \<longrightarrow> binary_valued out)
   \<and> (valid_bgr img \<longrightarrow> (\<exists>out. enhance_image cv img = Inr out))
   \<and> (\<not> ndim3 img \<and> 0 < height img \<and> 0 < width img \<longrightarrow>
        (\<exists>out. enhance_image cv img = Inr out))"
proof (intro conjI allI impI)
  fix out assume "enhance_image cv img = Inr out"
  then show "binary_valued out" by (rule enhance_image_binary(1))
next
  fix out assume "enhance_image cv img = Inr out" and "ndim3 img"
  then show "equal_channels3 out" by (rule enhance_image_binary(2))
next
  fix out assume "process_document cv img = Some out"
  from process_document_result [OF this] obtain src where "enhance_image cv src = Inr out" ..
  then show "binary_valued out" by (rule enhance_image_binary(1))
next
  assume "valid_bgr img"
  then show "\<exists>out. enhance_image cv img = Inr out"
    using enhance_image_valid_bgr by blast
next
  assume "\<not> ndim3 img \<and> 0 < height img \<and> 0 < width img"
  then show "\<exists>out. enhance_image cv img = Inr out"
    using enhance_image_gray by blast
qed

lemma valid_page: "valid_bgr page"
  by (simp add: valid_bgr_def page_def)

lemma preprocess_page_blank: "preprocess_image blank_cv page = Inr page_edges"
  by (simp add: preprocess_image_def cvtColor_BGR2GRAY_def page_def page_edges_def
      blank_cv_def toy_cv_def)

lemma detect_blank: "detect_document_contour blank_cv page_edges = None"
  by (simp add: detect_document_contour_def blank_cv_def toy_cv_def)

lemma process_document_page_blank:
  "process_document blank_cv page = Some (binarize_bgr blank_cv page)"
  by (simp add: process_document_def preprocess_page_blank detect_blank
      enhance_image_valid_bgr valid_page)

theorem enhance_image_binary_valued_witness:
  "valid_bgr page \<and> ndim3 page
   \<and> enhance_image blank_cv page = Inr (binarize_bgr blank_cv page)
   \<and> process_document blank_cv page = Some (binarize_bgr blank_cv page)
   \<and> binary_valued (binarize_bgr blank_cv page)
   \<and> equal_channels3 (binarize_bgr blank_cv page)"
proof -
  have e: "enhance_image blank_cv page = Inr (binarize_bgr blank_cv page)"
    by (simp add: enhance_image_valid_bgr valid_page)
  have n: "ndim3 page" by (simp add: page_def)
  from enhance_image_binary_valued [of blank_cv page] e n
  have "binary_valued (binarize_bgr blank_cv page) \<and> equal_channels3 (binarize_bgr blank_cv page)"
    by blast
  then show ?thesis using e n valid_page process_document_page_blank by simp
qed

section \<open>The orchestrator: the fallback path\<close>

text \<open>
  Claim C5. For a well-formed colour buffer in whose edge map no quadrilateral is found,
  \<open>process_document\<close> returns what \<open>enhance_image\<close> gives for the original buffer; the
  result has the height and width of the input, and no exception ends the call.
\<close>

theorem process_document_fallback:
  assumes "valid_bgr img" and "preprocess_image cv img = Inr edges"
    and "detect_document_contour cv edges = None"
  shows "\<exists>out. process_document cv img = Some out \<and> enhance_image cv img = Inr out
    \<and> height out = height img \<and> width out = width img"
proof -
  have e: "enhance_image cv img = Inr (binarize_bgr cv img)"
    using assms(1) by (rule enhance_image_valid_bgr)
  have p: "process_document cv img = Some (binarize_bgr cv img)"
    using assms(2,3) e by (simp add: process_document_def)
  show ?thesis using e p enhance_image_binary(3,4) [OF e] by blast
qed

theorem process_document_fallback_witness:
  "valid_bgr page \<and> preprocess_image blank_cv page = Inr page_edges
   \<and> detect_document_contour blank_cv page_edges = None
   \<and> (\<exists>out. process_document blank_cv page = Some out \<and> enhance_image blank_cv page = Inr out
         \<and> height out = height page \<and> width out = width page)
   \<and> height page = 4 \<and> width page = 4"
  using process_document_fallback [OF valid_page preprocess_page_blank detect_blank]
    valid_page preprocess_page_blank detect_blank
  by (simp add: page_def)

section \<open>The orchestrator: the rectified path\<close>

lemma detect_Some_length:
  assumes "detect_document_contour cv edges = Some quad"
  shows "length quad = 4"
proof -
  from assms have "quad_search cv (take 5 (py_sorted_reverse (contourArea cv) (findContours cv edges)))
      = Some quad"
    by (simp add: detect_document_contour_def Let_def split: if_splits)
  from quad_search_Some [OF this] show ?thesis by blast
qed

lemma perspective_plan_total:
  assumes "length contour = 4"
  shows "\<exists>rect dst dsize. perspective_plan contour = Inr (rect, dst, dsize)"
proof -
  have "contour \<noteq> []" using assms by auto
  from order_points_slots_gen [OF this] obtain a b c d where
    "order_points contour = Inr [a, b, c, d]" by blast
  from perspective_plan_f32 [OF assms this] show ?thesis by blast
qed

lemma enhance_image_calls_valid_bgr:
  assumes "valid_bgr img"
  shows "enhance_image_calls cv img =
    [Call_cvtColor BGR2GRAY, Call_adaptiveThreshold, Call_medianBlur, Call_cvtColor GRAY2BGR]"
  using assms
  by (cases img)
     (auto simp: valid_bgr_def enhance_image_calls_def cvtColor_BGR2GRAY_def adaptiveThreshold_def
       medianBlur3_def)

text \<open>
  Claim C1, as the code has it. When a quadrilateral is found in the edge map of the input,
  \<open>process_document\<close> rectifies the original buffer (the warp of the input with the
  homography and size planned from the quadrilateral) and returns what \<open>enhance_image\<close>
  gives for the rectified buffer, \<open>None\<close> if that raises. For a rectified buffer that is a
  well-formed colour buffer the result is its binarisation, and the enhancement consists
  of four calls: luminance, Gaussian adaptive threshold with block size 11 and constant 2,
  3x3 median, and the copy of the result into three equal channels.
\<close>

theorem process_document_rectified:
  assumes "preprocess_image cv img = Inr edges"
    and "detect_document_contour cv edges = Some quad"
  shows "\<exists>rect dst dsize. perspective_plan quad = Inr (rect, dst, dsize)
    \<and> (let corrected = warpPerspective cv img
              (getPerspectiveTransform cv (map f32_point rect) (map f32_point dst)) dsize
        in correct_perspective cv img quad = Inr corrected
           \<and> process_document cv img =
               (case enhance_image cv corrected of Inl e \<Rightarrow> None | Inr enhanced \<Rightarrow> Some enhanced)
           \<and> (valid_bgr corrected \<longrightarrow>
                 process_document cv img = Some (binarize_bgr cv corrected)
                 \<and> enhance_image_calls cv corrected =
                     [Call_cvtColor BGR2GRAY, Call_adaptiveThreshold, Call_medianBlur,
                      Call_cvtColor GRAY2BGR]))"
proof -
  from perspective_plan_total [OF detect_Some_length [OF assms(2)]] obtain rect dst dsize
    where plan: "perspective_plan quad = Inr (rect, dst, dsize)" by blast
  let ?c = "warpPerspective cv img (getPerspectiveTransform cv (map f32_point rect) (map f32_point dst)) dsize"
  have c: "correct_perspective cv img quad = Inr ?c"
    using plan by (simp add: correct_perspective_def)
  have p: "process_document cv img =
      (case enhance_image cv ?c of Inl e \<Rightarrow> None | Inr enhanced \<Rightarrow> Some enhanced)"
    using assms c by (simp add: process_document_def)
  have v: "valid_bgr ?c \<longrightarrow> process_document cv img = Some (binarize_bgr cv ?c)
      \<and> enhance_image_calls cv ?c =
          [Call_cvtColor BGR2GRAY, Call_adaptiveThreshold, Call_medianBlur, Call_cvtColor GRAY2BGR]"
    using p by (simp add: enhance_image_valid_bgr enhance_image_calls_valid_bgr)
  show ?thesis using plan c p v unfolding Let_def by blast
qed

lemma preprocess_sheet: "preprocess_image sheet_cv sheet = Inr sheet_edges"
  by (simp add: preprocess_image_def cvtColor_BGR2GRAY_def sheet_def sheet_edges_def
      sheet_cv_def toy_cv_def)

lemma detect_sheet:
  "detect_document_contour sheet_cv sheet_edges = Some [(18, 18), (18, 81), (81, 81), (81, 18)]"
  by (simp add: detect_document_contour_def py_sorted_reverse_def sheet_cv_def toy_cv_def)

lemma order_points_sheet:
  "order_points [(18, 18), (18, 81), (81, 81), (81, 18)]
     = Inr [(18, 18), (81, 18), (81, 81), (18, 81)]"
  by (simp add: order_points_def np_sum_axis1_def np_diff_axis1_def np_argmin_def np_argmax_def)

lemma sqrt_3969: "sqrt 3969 = 63"
  using real_sqrt_abs [of 63] by simp

lemma plan_sheet:
  "perspective_plan [(18, 18), (18, 81), (81, 81), (81, 18)] =
     Inr ([(18, 18), (81, 18), (81, 81), (18, 81)], [(0, 0), (62, 0), (62, 62), (0, 62)], (63, 63))"
proof -
  have l: "length [(18, 18), (18, 81), (81, 81), (81::int, 18::int)] = 4" by simp
  have "perspective_plan [(18, 18), (18, 81), (81, 81), (81, 18)] =
    Inr ([(18, 18), (81, 18), (81, 81), (18, 81)],
         [(0, 0),
          (\<lfloor>max (euclid (81, 81) (18, 81)) (euclid (81, 18) (18, 18))\<rfloor> - 1, 0),
          (\<lfloor>max (euclid (81, 81) (18, 81)) (euclid (81, 18) (18, 18))\<rfloor> - 1,
           \<lfloor>max (euclid (81, 18) (81, 81)) (euclid (18, 18) (18, 81))\<rfloor> - 1),
          (0, \<lfloor>max (euclid (81, 18) (81, 81)) (euclid (18, 18) (18, 81))\<rfloor> - 1)],
         (\<lfloor>max (euclid (81, 81) (18, 81)) (euclid (81, 18) (18, 18))\<rfloor>,
          \<lfloor>max (euclid (81, 18) (81, 81)) (euclid (18, 18) (18, 81))\<rfloor>))"
    by (rule perspective_plan_short [OF l order_points_sheet])
       (simp_all add: small_coords_def edge_sq_def)
  then show ?thesis by (simp add: euclid_def sqrt_3969)
qed

lemma correct_sheet:
  "correct_perspective sheet_cv sheet [(18, 18), (18, 81), (81, 81), (81, 18)] = Inr sheet_rectified"
  by (simp add: correct_perspective_def plan_sheet sheet_rectified_def) (simp add: sheet_cv_def)

lemma valid_sheet_rectified: "valid_bgr sheet_rectified"
  by (simp add: valid_bgr_def sheet_rectified_def)

theorem process_document_rectified_witness:
  "preprocess_image sheet_cv sheet = Inr sheet_edges
   \<and> detect_document_contour sheet_cv sheet_edges = Some [(18, 18), (18, 81), (81, 81), (81, 18)]
   \<and> correct_perspective sheet_cv sheet [(18, 18), (18, 81), (81, 81), (81, 18)] = Inr sheet_rectified
   \<and> valid_bgr sheet_rectified
   \<and> process_document sheet_cv sheet = Some (binarize_bgr sheet_cv sheet_rectified)
   \<and> enhance_image_calls sheet_cv sheet_rectified =
        [Call_cvtColor BGR2GRAY, Call_adaptiveThreshold, Call_medianBlur, Call_cvtColor GRAY2BGR]"
proof -
  from process_document_rectified [OF preprocess_sheet detect_sheet]
  obtain rect dst dsize where
    c: "correct_perspective sheet_cv sheet [(18, 18), (18, 81), (81, 81), (81, 18)] =
      Inr (warpPerspective sheet_cv sheet
        (getPerspectiveTransform sheet_cv (map f32_point rect) (map f32_point dst)) dsize)"
    and v: "valid_bgr (warpPerspective sheet_cv sheet
        (getPerspectiveTransform sheet_cv (map f32_point rect) (map f32_point dst)) dsize) \<longrightarrow>
      process_document sheet_cv sheet = Some (binarize_bgr sheet_cv (warpPerspective sheet_cv sheet
        (getPerspectiveTransform sheet_cv (map f32_point rect) (map f32_point dst)) dsize))
      \<and> enhance_image_calls sheet_cv (warpPerspective sheet_cv sheet
        (getPerspectiveTransform sheet_cv (map f32_point rect) (map f32_point dst)) dsize) =
        [Call_cvtColor BGR2GRAY, Call_adaptiveThreshold, Call_medianBlur, Call_cvtColor GRAY2BGR]"
    unfolding Let_def by blast
  from c correct_sheet have w: "warpPerspective sheet_cv sheet
        (getPerspectiveTransform sheet_cv (map f32_point rect) (map f32_point dst)) dsize = sheet_rectified"
    by simp
  from v [unfolded w] valid_sheet_rectified
  have "process_document sheet_cv sheet = Some (binarize_bgr sheet_cv sheet_rectified)
      \<and> enhance_image_calls sheet_cv sheet_rectified =
        [Call_cvtColor BGR2GRAY, Call_adaptiveThreshold, Call_medianBlur, Call_cvtColor GRAY2BGR]"
    by simp
  then show ?thesis
    using preprocess_sheet detect_sheet correct_sheet valid_sheet_rectified by simp
qed

lemma quad_search_calls_subset:
  "set (quad_search_calls cv cnts) \<subseteq> {Call_arcLength, Call_approxPolyDP}"
  by (induction cnts) (auto simp: Let_def)

lemma preprocess_image_calls_subset:
  "set (preprocess_image_calls cv img)
     \<subseteq> {Call_cvtColor BGR2GRAY, Call_GaussianBlur, Call_Canny, Call_getStructuringElement,
         Call_dilate}"
  by (auto simp: preprocess_image_calls_def split: sum.splits)

lemma detect_document_contour_calls_subset:
  "set (detect_document_contour_calls cv edges)
     \<subseteq> {Call_findContours, Call_contourArea, Call_arcLength, Call_approxPolyDP}"
proof -
  let ?top = "take 5 (py_sorted_reverse (contourArea cv) (findContours cv edges))"
  have "set (quad_search_calls cv ?top) \<subseteq> {Call_arcLength, Call_approxPolyDP}"
    by (rule quad_search_calls_subset)
  then show ?thesis
    unfolding detect_document_contour_calls_def Let_def by auto
qed

lemma correct_perspective_calls_subset:
  "set (correct_perspective_calls contour) \<subseteq> {Call_getPerspectiveTransform, Call_warpPerspective}"
  by (auto simp: correct_perspective_calls_def split: sum.splits)

lemma enhance_image_calls_subset:
  "set (enhance_image_calls cv img)
     \<subseteq> {Call_cvtColor BGR2GRAY, Call_adaptiveThreshold, Call_medianBlur, Call_cvtColor GRAY2BGR}"
  by (auto simp: enhance_image_calls_def split: sum.splits if_splits)

lemma process_document_calls_subset:
  "set (process_document_calls cv img)
     \<subseteq> {Call_cvtColor BGR2GRAY, Call_GaussianBlur, Call_Canny, Call_getStructuringElement,
         Call_dilate, Call_findContours, Call_contourArea, Call_arcLength, Call_approxPolyDP,
         Call_getPerspectiveTransform, Call_warpPerspective, Call_adaptiveThreshold,
         Call_medianBlur, Call_cvtColor GRAY2BGR}"
  (is "_ \<subseteq> ?S")
proof -
  have p: "set (preprocess_image_calls cv img) \<subseteq> ?S"
    using preprocess_image_calls_subset [of cv img] by blast
  have d: "set (detect_document_contour_calls cv edges) \<subseteq> ?S" for edges
    using detect_document_contour_calls_subset [of cv edges] by blast
  have c: "set (correct_perspective_calls contour) \<subseteq> ?S" for contour
    using correct_perspective_calls_subset [of contour] by blast
  have e: "set (enhance_image_calls cv im) \<subseteq> ?S" for im
    using enhance_image_calls_subset [of cv im] by blast
  show ?thesis
  proof (cases "preprocess_image cv img")
    case (Inl err)
    then show ?thesis using p by (simp add: process_document_calls_def)
  next
    case (Inr edges)
    show ?thesis
    proof (cases "detect_document_contour cv edges")
      case None
      then show ?thesis
        using Inr p d [of edges] e [of img] by (simp add: process_document_calls_def)
    next
      case (Some quad)
      show ?thesis
      proof (cases "correct_perspective cv img quad")
        case (Inl err)
        then show ?thesis
          using Inr Some p d [of edges] c [of quad] by (simp add: process_document_calls_def)
      next
        case (Inr corrected)
        then show ?thesis
          using \<open>preprocess_image cv img = Inr edges\<close> Some p d [of edges] c [of quad]
            e [of corrected]
          by (simp add: process_document_calls_def)
      qed
    qed
  qed
qed

lemma process_document_calls_no_visual:
  "Call_bilateralFilter \<notin> set (process_document_calls cv img)"
  "Call_filter2D \<notin> set (process_document_calls cv img)"
  "Call_CLAHE_apply \<notin> set (process_document_calls cv img)"
  using process_document_calls_subset [of cv img] by auto

lemma enhance_frame_calls_first: "hd (enhance_frame_calls cv frame) = Call_bilateralFilter"
  by (simp add: enhance_frame_calls_def)

lemma process_document_calls_sheet:
  "process_document_calls sheet_cv sheet =
     [Call_cvtColor BGR2GRAY, Call_GaussianBlur, Call_Canny, Call_getStructuringElement,
      Call_dilate, Call_findContours, Call_contourArea, Call_arcLength, Call_approxPolyDP,
      Call_getPerspectiveTransform, Call_warpPerspective, Call_cvtColor BGR2GRAY,
      Call_adaptiveThreshold, Call_medianBlur, Call_cvtColor GRAY2BGR]"
proof -
  have a: "preprocess_image_calls sheet_cv sheet =
      [Call_cvtColor BGR2GRAY, Call_GaussianBlur, Call_Canny, Call_getStructuringElement, Call_dilate]"
    using preprocess_sheet by (simp add: preprocess_image_calls_def preprocess_image_def split: sum.splits)
  have b: "detect_document_contour_calls sheet_cv sheet_edges =
      [Call_findContours, Call_contourArea, Call_arcLength, Call_approxPolyDP]"
    by (simp add: detect_document_contour_calls_def py_sorted_reverse_def sheet_cv_def toy_cv_def)
  have c: "correct_perspective_calls [(18, 18), (18, 81), (81, 81), (81, 18)] =
      [Call_getPerspectiveTransform, Call_warpPerspective]"
    by (simp add: correct_perspective_calls_def plan_sheet)
  show ?thesis
    by (simp add: process_document_calls_def a b c preprocess_sheet detect_sheet correct_sheet
        enhance_image_calls_valid_bgr valid_sheet_rectified)
qed

lemma enhance_frame_calls_sheet:
  "enhance_frame_calls sheet_cv sheet_rectified =
     [Call_bilateralFilter, Call_filter2D, Call_cvtColor BGR2LAB, Call_split, Call_createCLAHE,
      Call_CLAHE_apply, Call_merge, Call_cvtColor LAB2BGR]"
  by (simp add: enhance_frame_calls_def bilateralFilter_checked_def cvtColor_BGR2LAB_def
      convert_pixels_def split_plane_def merge3_def sheet_rectified_def sheet_cv_def toy_cv_def)

text \<open>
  The claim as the specification words it fails on every run. No run of
  \<open>process_document\<close>, with any input, calls the bilateral filter, the sharpening
  convolution or CLAHE, and the visual enhancement of the camera handler, which the claim
  describes, begins with the bilateral filter on every frame. On the photograph of the grey
  sheet the quadrilateral is found, and the calls of the run are listed: after the warp
  come the luminance conversion, the adaptive threshold, the median and the copy into
  three channels, where the visual enhancement of the rectified buffer would make eight
  other calls.
\<close>

theorem process_document_not_visual_mode:
  "detect_document_contour sheet_cv sheet_edges = Some [(18, 18), (18, 81), (81, 81), (81, 18)]
   \<and> process_document_calls sheet_cv sheet =
     [Call_cvtColor BGR2GRAY, Call_GaussianBlur, Call_Canny, Call_getStructuringElement,
      Call_dilate, Call_findContours, Call_contourArea, Call_arcLength, Call_approxPolyDP,
      Call_getPerspectiveTransform, Call_warpPerspective, Call_cvtColor BGR2GRAY,
      Call_adaptiveThreshold, Call_medianBlur, Call_cvtColor GRAY2BGR]
   \<and> enhance_frame_calls sheet_cv sheet_rectified =
     [Call_bilateralFilter, Call_filter2D, Call_cvtColor BGR2LAB, Call_split, Call_createCLAHE,
      Call_CLAHE_apply, Call_merge, Call_cvtColor LAB2BGR]
   \<and> (\<forall>cv img. Call_bilateralFilter \<notin> set (process_document_calls cv img)
          \<and> Call_filter2D \<notin> set (process_document_calls cv img)
          \<and> Call_CLAHE_apply \<notin> set (process_document_calls cv img))
   \<and> (\<forall>cv frame. hd (enhance_frame_calls cv frame) = Call_bilateralFilter)"
  using detect_sheet process_document_calls_sheet enhance_frame_calls_sheet
    process_document_calls_no_visual enhance_frame_calls_first
  by simp

end
